theory Spec2Isabelle
  imports Main
begin

unbundle bit_operations_syntax

section \<open>Data model\<close>

text \<open>
  Go's \<open>byte\<close> is an 8-bit value and both \<open>[]byte\<close> and \<open>string\<close> are byte sequences,
  so they are modelled as \<open>char list\<close> (an Isabelle \<open>char\<close> is exactly one byte).
  A \<open>rune\<close> is a signed 32-bit integer; every rune the code handles lies between
  \<open>-1\<close> and \<open>0x10FFFF\<close>, so it is modelled as an \<open>int\<close>.
\<close>

type_synonym byte = char
type_synonym rune = int

abbreviation BS :: byte where "BS \<equiv> CHR 0x5C"
abbreviation LF :: byte where "LF \<equiv> CHR 0x0A"
abbreviation CR :: byte where "CR \<equiv> CHR 0x0D"
abbreviation TAB :: byte where "TAB \<equiv> CHR 0x09"
abbreviation FF :: byte where "FF \<equiv> CHR 0x0C"

abbreviation RuneError :: rune where "RuneError \<equiv> 0xFFFD"

text \<open>A run-time panic of the Go program is a value of the model.\<close>

datatype panic = SliceBounds | IndexRange

text \<open>\<open>p[i:]\<close> on a slice panics when \<open>i\<close> exceeds the length.\<close>

definition slice_from :: "'a list \<Rightarrow> nat \<Rightarrow> panic + 'a list" where
  "slice_from p i = (if i \<le> length p then Inr (drop i p) else Inl SliceBounds)"

section \<open>The standard library functions the code calls\<close>

text \<open>
  \<open>utf8.DecodeRune\<close>: the first table of the Go library gives, for a leading byte, the
  length of the sequence and the range accepted for the second byte; ASCII bytes decode
  to themselves and every malformed sequence decodes to \<open>(RuneError, 1)\<close>.
\<close>

definition first_info :: "nat \<Rightarrow> (nat \<times> nat \<times> nat) option" where
  "first_info c =
     (if c < 0xC2 then None
      else if c < 0xE0 then Some (2, 0x80, 0xBF)
      else if c = 0xE0 then Some (3, 0xA0, 0xBF)
      else if c < 0xED then Some (3, 0x80, 0xBF)
      else if c = 0xED then Some (3, 0x80, 0x9F)
      else if c < 0xF0 then Some (3, 0x80, 0xBF)
      else if c = 0xF0 then Some (4, 0x90, 0xBF)
      else if c < 0xF4 then Some (4, 0x80, 0xBF)
      else if c = 0xF4 then Some (4, 0x80, 0x8F)
      else None)"

definition DecodeRune :: "byte list \<Rightarrow> rune \<times> nat" where
  "DecodeRune p =
     (case p of
        [] \<Rightarrow> (RuneError, 0)
      | p0 # _ \<Rightarrow>
          (let c0 = (of_char p0 :: nat) in
           if c0 < 0x80 then (int c0, 1)
           else (case first_info c0 of
                   None \<Rightarrow> (RuneError, 1)
                 | Some (sz, lo, hi) \<Rightarrow>
                     if length p < sz then (RuneError, 1)
                     else (let b1 = (of_char (p ! 1) :: nat) in
                       if b1 < lo \<or> hi < b1 then (RuneError, 1)
                       else if sz \<le> 2 then (int ((c0 mod 32) * 64 + b1 mod 64), 2)
                       else (let b2 = (of_char (p ! 2) :: nat) in
                         if b2 < 0x80 \<or> 0xBF < b2 then (RuneError, 1)
                         else if sz \<le> 3
                           then (int ((c0 mod 16) * 4096 + (b1 mod 64) * 64 + b2 mod 64), 3)
                         else (let b3 = (of_char (p ! 3) :: nat) in
                           if b3 < 0x80 \<or> 0xBF < b3 then (RuneError, 1)
                           else (int ((c0 mod 8) * 262144 + (b1 mod 64) * 4096
                                        + (b2 mod 64) * 64 + b3 mod 64), 4)))))))"

text \<open>
  \<open>utf8.EncodeRune\<close> (also what \<open>WriteRune\<close> appends): negative runes, runes above
  \<open>0x10FFFF\<close> and surrogates are written as the encoding of \<open>RuneError\<close>.
\<close>

definition EncodeRune :: "rune \<Rightarrow> byte list" where
  "EncodeRune r =
     (if 0 \<le> r \<and> r \<le> 0x7F then [char_of r]
      else if 0 \<le> r \<and> r \<le> 0x7FF then [char_of (0xC0 + r div 64), char_of (0x80 + r mod 64)]
      else if r < 0 \<or> 0x10FFFF < r \<or> (0xD800 \<le> r \<and> r \<le> 0xDFFF)
        then [CHR 0xEF, CHR 0xBF, CHR 0xBD]
      else if r \<le> 0xFFFF
        then [char_of (0xE0 + r div 4096), char_of (0x80 + (r div 64) mod 64),
              char_of (0x80 + r mod 64)]
      else [char_of (0xF0 + r div 262144), char_of (0x80 + (r div 4096) mod 64),
            char_of (0x80 + (r div 64) mod 64), char_of (0x80 + r mod 64)])"

lemma DecodeRune_size_pos: "p \<noteq> [] \<Longrightarrow> 1 \<le> snd (DecodeRune p)"
  by (auto simp: DecodeRune_def Let_def split: list.splits option.splits)

lemma DecodeRune_size_le: "snd (DecodeRune p) \<le> length p"
  by (auto simp: DecodeRune_def Let_def first_info_def Suc_le_eq
      split: list.splits option.splits if_splits)

lemma DecodeRune_pos: "DecodeRune p = (r, sz) \<Longrightarrow> p \<noteq> [] \<longrightarrow> 0 < sz"
  using DecodeRune_size_pos [of p] by auto

text \<open>\<open>for _, r := range s\<close> over a string decodes one rune after the other.\<close>

function range_string :: "byte list \<Rightarrow> rune list" where
  "range_string p =
     (if p = [] then []
      else fst (DecodeRune p) # range_string (drop (snd (DecodeRune p)) p))"
  by pat_completeness auto
termination
proof (relation "measure length")
  show "wf (measure length)" by simp
next
  fix p :: "byte list"
  assume "p \<noteq> []"
  with DecodeRune_size_pos [of p] show "(drop (snd (DecodeRune p)) p, p) \<in> measure length"
    by (cases p) auto
qed

declare range_string.simps [simp del]

text \<open>\<open>utf16.IsSurrogate\<close>, \<open>utf16.DecodeRune\<close> and \<open>utf16.EncodeRune\<close>.\<close>

definition IsSurrogate :: "rune \<Rightarrow> bool" where
  "IsSurrogate r \<longleftrightarrow> 0xD800 \<le> r \<and> r < 0xE000"

definition DecodeRune16 :: "rune \<Rightarrow> rune \<Rightarrow> rune" where
  "DecodeRune16 r1 r2 =
     (if 0xD800 \<le> r1 \<and> r1 < 0xDC00 \<and> 0xDC00 \<le> r2 \<and> r2 < 0xE000
      then (r1 - 0xD800) * 1024 + (r2 - 0xDC00) + 0x10000
      else RuneError)"

definition EncodeRune16 :: "rune \<Rightarrow> rune \<times> rune" where
  "EncodeRune16 r =
     (if r < 0x10000 \<or> 0x10FFFF < r then (RuneError, RuneError)
      else (0xD800 + ((r - 0x10000) div 1024) mod 1024, 0xDC00 + (r - 0x10000) mod 1024))"

section \<open>The escape codec\<close>

subsection \<open>escapeRune\<close>

text \<open>
  The loop \<open>for i := 5; i >= 2; i--\<close> of \<open>escapeRune\<close> writes the four hexadecimal
  digits of \<open>r\<close> from the last to the first, shifting \<open>r\<close> right by four bits each time.
  \<open>hex_digits k r\<close> is what it leaves in \<open>p[6-k:6]\<close>.
\<close>

definition hex_digit :: "rune \<Rightarrow> byte" where
  "hex_digit r = (let b = 0x0f AND r in if b > 9 then char_of (b + 87) else char_of (b + 48))"

fun hex_digits :: "nat \<Rightarrow> rune \<Rightarrow> byte list" where
  "hex_digits 0 r = []"
| "hex_digits (Suc k) r = hex_digits k (drop_bit 4 r) @ [hex_digit r]"

text \<open>
  \<open>escapeRune\<close> fills a buffer and returns the number of bytes written; the callers
  then use \<open>buffer[:size]\<close>. The model returns that prefix of the buffer (its length is
  the returned size). For a rune above \<open>0xffff\<close> the two halves returned by
  \<open>utf16.EncodeRune\<close> are at most \<open>0xffff\<close>, so the recursion has depth one and is
  written with the non-recursive part \<open>escapeRune1\<close>.
\<close>

definition escapeRune1 :: "rune \<Rightarrow> byte list" where
  "escapeRune1 r =
     (if 0x20 \<le> r \<and> r \<le> 0x7e then []
      else (let r = (if r < 0 then RuneError else r)
            in [BS, CHR ''u''] @ hex_digits 4 r))"

definition escapeRune :: "rune \<Rightarrow> byte list" where
  "escapeRune r =
     (if r > 0xffff
      then (case EncodeRune16 r of (r1, r2) \<Rightarrow> escapeRune1 r1 @ escapeRune1 r2)
      else escapeRune1 r)"

subsection \<open>unescapeRune\<close>

text \<open>
  The loop \<open>for i := 2; i < n; i++\<close> reading the hexadecimal digits: it returns the
  value read and \<open>n\<close>, which the loop sets to the index of the first byte that is not
  a hexadecimal digit.
\<close>

function hex_loop :: "byte list \<Rightarrow> nat \<Rightarrow> nat \<Rightarrow> rune \<Rightarrow> rune \<times> nat" where
  "hex_loop p i n r =
     (if i < n then
        (let b = (of_char (p ! i) :: nat) in
         if 0x30 \<le> b \<and> b \<le> 0x39 then hex_loop p (i + 1) n (push_bit 4 r OR int (b - 0x30))
         else if 0x61 \<le> b \<and> b \<le> 0x66 then hex_loop p (i + 1) n (push_bit 4 r OR int (b - 87))
         else if 0x41 \<le> b \<and> b \<le> 0x46 then hex_loop p (i + 1) n (push_bit 4 r OR int (b - 55))
         else (r, i))
      else (r, n))"
  by pat_completeness auto
termination
  by (relation "measure (\<lambda>(p, i, n, r). n - i)") auto

declare hex_loop.simps [simp del]

lemma hex_loop_le: "snd (hex_loop p i n r) \<le> n"
proof (induction p i n r rule: hex_loop.induct)
  case (1 p i n r)
  show ?case
  proof (cases "i < n")
    case True
    with "1.IH" show ?thesis
      by (subst hex_loop.simps) (auto simp: Let_def)
  next
    case False
    then show ?thesis by (subst hex_loop.simps) simp
  qed
qed

text \<open>
  \<open>unescapeRune\<close> itself. The recursive call on \<open>p[6:]\<close> is reached only when
  \<open>n = 6\<close>, that is when \<open>p\<close> has at least six bytes, so the slice is in range.
\<close>

function unescapeRune :: "byte list \<Rightarrow> rune \<times> nat" where
  "unescapeRune p =
     (if length p < 1 \<or> p ! 0 \<noteq> BS then (RuneError, 0)
      else (case DecodeRune (drop 1 p) of (r, sz) \<Rightarrow>
        if r = 0x74 then (0x09, 2)
        else if r = 0x6E then (0x0A, 2)
        else if r = 0x66 then (0x0C, 2)
        else if r = 0x72 then (0x0D, 2)
        else if r \<noteq> 0x75 then (r, sz + 1)
        else (case hex_loop p 2 (if length p > 6 then 6 else length p) 0 of (r, n) \<Rightarrow>
          (let r = (if n < 6 then RuneError else r) in
           if IsSurrogate r then
             (case unescapeRune (drop 6 p) of (r2, sz2) \<Rightarrow>
                if sz2 \<noteq> 6 \<or> \<not> IsSurrogate r2 then (RuneError, 6)
                else (DecodeRune16 r r2, 12))
           else (r, n)))))"
  by pat_completeness auto
termination
proof (relation "measure length")
  show "wf (measure length)" by simp
next
  fix p :: "byte list" and x r sz xa ra n xb
  assume a: "\<not> (length p < 1 \<or> p ! 0 \<noteq> BS)"
    and h: "(ra, n) = hex_loop p 2 (if 6 < length p then 6 else length p) 0"
    and xb: "xb = (if n < 6 then RuneError else ra)"
    and s: "IsSurrogate xb"
  from s xb have n6: "\<not> n < 6" by (auto simp: IsSurrogate_def split: if_splits)
  from h have "n = snd (hex_loop p 2 (if 6 < length p then 6 else length p) 0)"
    by (metis snd_conv)
  with hex_loop_le [of p 2 "if 6 < length p then 6 else length p" 0]
  have "n \<le> (if 6 < length p then 6 else length p)" by simp
  with n6 have "6 \<le> length p" by (auto split: if_splits)
  then show "(drop 6 p, p) \<in> measure length" by simp
qed

declare unescapeRune.simps [simp del]

subsection \<open>unescape\<close>

definition isDelimiter :: "rune \<Rightarrow> bool" where
  "isDelimiter r \<longleftrightarrow> r = 0x3D \<or> r = 0x3A"

definition isSpace :: "rune \<Rightarrow> bool" where
  "isSpace r \<longleftrightarrow> r = 0x09 \<or> r = 0x0C \<or> r = 0x20"

definition isCommentPrefix :: "rune \<Rightarrow> bool" where
  "isCommentPrefix r \<longleftrightarrow> r = 0x23 \<or> r = 0x21"

text \<open>
  The inner loop of \<open>unescape\<close>, entered after the first unescaped separator. It either
  executes the \<open>return\<close> of the function (\<open>Returned n\<close>) or runs until \<open>p\<close> is empty
  and falls out of the loop (\<open>Exhausted r size n\<close>, with the values the variables
  \<open>r\<close>, \<open>size\<close> and \<open>n\<close> then have). \<open>utf8.DecodeRune\<close> never returns a size above
  \<open>len(p)\<close>, so the slice \<open>p[size:]\<close> of this loop is in range.
\<close>

datatype skip_result = Returned nat | Exhausted rune nat nat

function skip_loop :: "byte list \<Rightarrow> rune \<Rightarrow> nat \<Rightarrow> nat \<Rightarrow> skip_result" where
  "skip_loop p r sz n =
     (if length p > 0 then
        (case DecodeRune p of (r', sz') \<Rightarrow>
           if \<not> (isSpace r' \<or> isDelimiter r') then Returned n
           else skip_loop (drop sz' p) r' sz' (n + sz'))
      else Exhausted r sz n)"
  by pat_completeness auto
termination
proof (relation "measure (\<lambda>(p, r, sz, n). length p)")
  show "wf (measure (\<lambda>(p, r, sz, n). length p))" by simp
next
  fix p :: "byte list" and r :: rune and sz n :: nat and x r' sz'
  assume "0 < length p" and "(r', sz') = DecodeRune p"
  with DecodeRune_size_pos [of p] have "1 \<le> sz'" by (metis length_greater_0_conv snd_conv)
  with \<open>0 < length p\<close>
  show "((drop sz' p, r', sz', n + sz'), (p, r, sz, n)) \<in> measure (\<lambda>(p, r, sz, n). length p)"
    by simp
qed

declare skip_loop.simps [simp del]

text \<open>
  The main loop of \<open>unescape\<close>, with the builder \<open>b\<close> and the count \<open>n\<close> as
  arguments. When the inner loop falls out with \<open>p\<close> empty, control reaches
  \<open>b.WriteRune(r)\<close> and \<open>p = p[size:]\<close> with \<open>p\<close> empty.
\<close>

function unescape_loop :: "byte list \<Rightarrow> bool \<Rightarrow> byte list \<Rightarrow> nat \<Rightarrow> panic + (byte list \<times> nat)" where
  "unescape_loop p split b n =
     (if length p > 0 then
        (case unescapeRune p of (r, sz) \<Rightarrow>
           if sz = 0 then
             (case DecodeRune p of (r, sz) \<Rightarrow>
                if split \<and> (isSpace r \<or> isDelimiter r) then
                  (case skip_loop (drop sz p) r sz (n + sz) of
                     Returned n' \<Rightarrow> Inr (b, n')
                   | Exhausted r' sz' n' \<Rightarrow>
                       (case slice_from [] sz' of
                          Inl e \<Rightarrow> Inl e
                        | Inr p' \<Rightarrow> unescape_loop p' split (b @ EncodeRune r') (n' + sz')))
                else
                  (case slice_from p sz of
                     Inl e \<Rightarrow> Inl e
                   | Inr p' \<Rightarrow> unescape_loop p' split (b @ EncodeRune r) (n + sz)))
           else
             (case slice_from p sz of
                Inl e \<Rightarrow> Inl e
              | Inr p' \<Rightarrow> unescape_loop p' split (b @ EncodeRune r) (n + sz)))
      else Inr (b, n))"
  by pat_completeness auto
termination
proof (relation "measure (\<lambda>(p, split, b, n). length p)", goal_cases)
  case 1
  show ?case by simp
next
  case 2
  then show ?case by (auto simp: slice_from_def split: if_splits)
next
  case 3
  then show ?case
    by (auto simp: slice_from_def split: if_splits dest!: DecodeRune_pos [OF sym])
next
  case 4
  then show ?case by (auto simp: slice_from_def split: if_splits)
qed

declare unescape_loop.simps [simp del]

definition unescape :: "byte list \<Rightarrow> bool \<Rightarrow> panic + (byte list \<times> nat)" where
  "unescape p split = unescape_loop p split [] 0"

section \<open>The natural-line reader and Load\<close>

text \<open>
  The \<open>bufio.Reader\<close> is modelled by the bytes still to be read; \<open>ReadByte\<close> takes the
  first one and \<open>UnreadByte\<close> puts it back. When no byte is left \<open>ReadByte\<close> returns
  the error the underlying reader ends with: \<open>io.EOF\<close>, or some other failure.
\<close>

datatype ioerr = EOF | IOFailure

definition is_space_byte :: "byte \<Rightarrow> bool" where
  "is_space_byte x \<longleftrightarrow> x = TAB \<or> x = FF \<or> x = CHR '' ''"

text \<open>
  The copying loop \<open>for x != '\n' && x != '\r'\<close> of \<open>loadBytes\<close>: \<open>x\<close> is the byte in
  hand, \<open>s\<close> the bytes not yet read. It ends either because \<open>ReadByte\<close> fails
  (\<open>CopyEof b\<close>) or at an end-of-line byte (\<open>CopyEol x s esc b\<close>).
\<close>

datatype copy_result = CopyEof "byte list" | CopyEol byte "byte list" bool "byte list"

fun copy_line :: "byte \<Rightarrow> byte list \<Rightarrow> bool \<Rightarrow> byte list \<Rightarrow> copy_result" where
  "copy_line x [] esc b =
     (if x \<noteq> LF \<and> x \<noteq> CR then CopyEof (b @ [x]) else CopyEol x [] esc b)"
| "copy_line x (y # s) esc b =
     (if x \<noteq> LF \<and> x \<noteq> CR
      then copy_line y s (if x = BS then \<not> esc else False) (b @ [x])
      else CopyEol x (y # s) esc b)"

lemma copy_line_length:
  "copy_line x s esc b = CopyEol x' s' esc' b' \<Longrightarrow> length s' \<le> length s"
  by (induction s arbitrary: x esc b) (auto split: if_splits intro: le_SucI)

text \<open>
  After the copying loop: a \<open>'\r'\<close> is followed by another \<open>ReadByte\<close>, whose byte is
  put back unless it is \<open>'\n'\<close>. \<open>None\<close> stands for the failure of that \<open>ReadByte\<close>.
\<close>

definition after_eol :: "byte \<Rightarrow> byte list \<Rightarrow> byte list option" where
  "after_eol x s =
     (if x = CR then
        (case s of [] \<Rightarrow> None | y # s' \<Rightarrow> if y \<noteq> LF then Some (y # s') else Some s')
      else Some s)"

lemma after_eol_length: "after_eol x s = Some s' \<Longrightarrow> length s' \<le> length s"
  by (auto simp: after_eol_def split: if_splits list.splits)

text \<open>
  One call of \<open>loadBytes\<close>, as the loop \<open>for !done\<close> with the slice \<open>b\<close> as argument.
  The result is \<open>b\<close>, the error (\<open>None\<close> for \<open>nil\<close>) and the bytes left in the reader.
  \<open>b[:len(b)-1]\<close> is reached only when \<open>esc\<close> is set, that is right after a backslash
  was appended, so \<open>b\<close> is not empty there.
\<close>

function loadBytes_loop :: "ioerr \<Rightarrow> byte list \<Rightarrow> byte list \<Rightarrow> byte list \<times> ioerr option \<times> byte list" where
  "loadBytes_loop fin b s =
     (case dropWhile is_space_byte s of
        [] \<Rightarrow> (b, Some fin, [])
      | x # s1 \<Rightarrow>
          (let done = ((x = CHR ''#'' \<or> x = CHR ''!'') \<and> length b = 0) in
           case copy_line x s1 False b of
             CopyEof b' \<Rightarrow> (b', Some fin, [])
           | CopyEol x' s2 esc b' \<Rightarrow>
               (case after_eol x' s2 of
                  None \<Rightarrow> (b', Some fin, [])
                | Some s3 \<Rightarrow>
                    if \<not> done then
                      (if esc then loadBytes_loop fin (butlast b') s3 else (b', None, s3))
                    else (b', None, s3))))"
  by pat_completeness auto
termination
proof (relation "measure (\<lambda>(fin, b, s). length s)", goal_cases)
  case 1
  show ?case by simp
next
  case (2 fin b s x s1 dn x' s2 esc b' s3)
  have "length (dropWhile is_space_byte s) \<le> length s" by (rule length_dropWhile_le)
  with 2 have "length s1 < length s" by simp
  moreover from 2 have "length s2 \<le> length s1"
    using copy_line_length [of x s1 False b x' s2 esc b'] by simp
  moreover from 2 have "length s3 \<le> length s2" using after_eol_length by simp
  ultimately show ?case by simp
qed

declare loadBytes_loop.simps [simp del]

definition loadBytes :: "ioerr \<Rightarrow> byte list \<Rightarrow> byte list \<times> ioerr option \<times> byte list" where
  "loadBytes fin s = loadBytes_loop fin [] s"

lemma loadBytes_loop_shorter:
  "loadBytes_loop fin b s = (b', None, s') \<Longrightarrow> length s' < length s"
proof (induction fin b s rule: loadBytes_loop.induct)
  case (1 fin b s)
  show ?case
  proof (cases "dropWhile is_space_byte s")
    case Nil
    with "1.prems" show ?thesis by (subst (asm) loadBytes_loop.simps) simp
  next
    case (Cons x s1)
    have l1: "length s1 < length s"
      using length_dropWhile_le [of is_space_byte s] Cons by simp
    show ?thesis
    proof (cases "copy_line x s1 False b")
      case (CopyEof b1)
      with "1.prems" Cons show ?thesis by (subst (asm) loadBytes_loop.simps) simp
    next
      case (CopyEol x' s2 esc b1)
      then have l2: "length s2 \<le> length s1" by (rule copy_line_length)
      show ?thesis
      proof (cases "after_eol x' s2")
        case None
        with "1.prems" Cons CopyEol show ?thesis by (subst (asm) loadBytes_loop.simps) simp
      next
        case (Some s3)
        then have l3: "length s3 \<le> length s2" by (rule after_eol_length)
        show ?thesis
        proof (cases "\<not> ((x = CHR ''#'' \<or> x = CHR ''!'') \<and> length b = 0) \<and> esc")
          case True
          with "1.prems" Cons CopyEol Some
          have "loadBytes_loop fin (butlast b1) s3 = (b', None, s')"
            by (subst (asm) loadBytes_loop.simps) (simp add: Let_def)
          with "1.IH" [OF Cons refl CopyEol Some] True have "length s' < length s3"
            by simp
          with l1 l2 l3 show ?thesis by simp
        next
          case False
          with "1.prems" Cons CopyEol Some have "s' = s3"
            by (subst (asm) loadBytes_loop.simps) (auto simp: Let_def split: if_splits)
          with l1 l2 l3 show ?thesis by simp
        qed
      qed
    qed
  qed
qed

text \<open>
  \<open>Table.Load\<close>, as the loop \<open>for !done\<close> with the map \<open>p.data\<close> and \<open>count\<close> as
  arguments. The result is the map, the count and the error returned, or a panic.
\<close>

definition load_line :: "byte list \<Rightarrow> (string \<rightharpoonup> string) \<Rightarrow> nat \<Rightarrow> panic + ((string \<rightharpoonup> string) \<times> nat)" where
  "load_line b data count =
     (if length b > 0 \<and> b ! 0 \<noteq> CHR ''#'' \<and> b ! 0 \<noteq> CHR ''!'' then
        (case unescape b True of
           Inl pn \<Rightarrow> Inl pn
         | Inr (key, i) \<Rightarrow>
             (case slice_from b i of
                Inl pn \<Rightarrow> Inl pn
              | Inr bi \<Rightarrow>
                  (case unescape bi False of
                     Inl pn \<Rightarrow> Inl pn
                   | Inr (val, _) \<Rightarrow> Inr (data(key \<mapsto> val), count + 1))))
      else Inr (data, count))"

function Load_loop :: "ioerr \<Rightarrow> (string \<rightharpoonup> string) \<Rightarrow> nat \<Rightarrow> byte list \<Rightarrow> panic + ((string \<rightharpoonup> string) \<times> nat \<times> ioerr option)" where
  "Load_loop fin data count s =
     (case loadBytes fin s of (b, e, s') \<Rightarrow>
        (case load_line b data count of
           Inl pn \<Rightarrow> Inl pn
         | Inr (data', count') \<Rightarrow>
             (case e of
                None \<Rightarrow> Load_loop fin data' count' s'
              | Some err \<Rightarrow>
                  if err \<noteq> EOF then Inr (data', count', Some err)
                  else Inr (data', count', None))))"
  by pat_completeness auto
termination
proof (relation "measure (\<lambda>(fin, data, count, s). length s)", goal_cases)
  case 1
  show ?case by simp
next
  case 2
  then show ?case by (auto simp: loadBytes_def dest!: loadBytes_loop_shorter [OF sym])
qed

declare Load_loop.simps [simp del]

text \<open>\<open>Load\<close> on a table whose map is \<open>data\<close>, and \<open>LoadString\<close>, whose reader ends with \<open>io.EOF\<close>.\<close>

definition Load :: "ioerr \<Rightarrow> (string \<rightharpoonup> string) \<Rightarrow> byte list \<Rightarrow> panic + ((string \<rightharpoonup> string) \<times> nat \<times> ioerr option)" where
  "Load fin data s = Load_loop fin data 0 s"

definition LoadString :: "(string \<rightharpoonup> string) \<Rightarrow> string \<Rightarrow> panic + ((string \<rightharpoonup> string) \<times> nat \<times> ioerr option)" where
  "LoadString data s = Load EOF data s"

text \<open>
  Vocabulary for the properties of the reader. A natural line has no end-of-line byte;
  its trailing run of backslashes is counted from its end; an end-of-line sequence is
  complete when it is \<open>\n\<close>, \<open>\r\n\<close>, or a \<open>\r\<close> followed by a byte other than
  \<open>\n\<close>; and a line is a comment when nothing was accumulated before it and its first
  byte after the leading white space is \<open>#\<close> or \<open>!\<close>.
\<close>

definition eol_free :: "byte list \<Rightarrow> bool" where
  "eol_free l \<longleftrightarrow> LF \<notin> set l \<and> CR \<notin> set l"

definition trailing_backslashes :: "byte list \<Rightarrow> nat" where
  "trailing_backslashes l = length (takeWhile (\<lambda>x. x = BS) (rev l))"

definition complete_eol :: "byte list \<Rightarrow> byte list \<Rightarrow> bool" where
  "complete_eol e rest \<longleftrightarrow>
     e = [LF] \<or> e = [CR, LF] \<or> (e = [CR] \<and> rest \<noteq> [] \<and> hd rest \<noteq> LF)"

definition is_comment :: "byte list \<Rightarrow> byte list \<Rightarrow> bool" where
  "is_comment b l \<longleftrightarrow> b = [] \<and> l \<noteq> [] \<and> (hd l = CHR ''#'' \<or> hd l = CHR ''!'')"

text \<open>
  Vocabulary for the properties of \<open>unescape\<close> on a line of ASCII text. Such a line is
  described by its items: a byte written as it is, or a byte written after a backslash.
  \<open>written\<close> is the text of the line and \<open>read_back\<close> the text it stands for. A
  separator byte is a white space (space, tab, form-feed) or a delimiter (\<open>=\<close>,
  \<open>:\<close>). A byte written after a backslash stands for itself unless it is one of
  \<open>t\<close>, \<open>n\<close>, \<open>f\<close>, \<open>r\<close> and \<open>u\<close>. A byte of a key written as it is is
  neither a backslash nor a separator; a byte of a value written as it is is not a
  backslash.
\<close>

datatype item = Plain byte | Escaped byte

fun written :: "item list \<Rightarrow> byte list" where
  "written [] = []"
| "written (Plain c # its) = c # written its"
| "written (Escaped c # its) = BS # c # written its"

fun read_back :: "item list \<Rightarrow> byte list" where
  "read_back [] = []"
| "read_back (Plain c # its) = c # read_back its"
| "read_back (Escaped c # its) = c # read_back its"

definition is_sep_byte :: "byte \<Rightarrow> bool" where
  "is_sep_byte c \<longleftrightarrow> c = CHR '' '' \<or> c = TAB \<or> c = FF \<or> c = CHR ''='' \<or> c = CHR '':''"

definition ascii_byte :: "byte \<Rightarrow> bool" where
  "ascii_byte c \<longleftrightarrow> (of_char c :: nat) < 0x80"

definition literal_escape :: "byte \<Rightarrow> bool" where
  "literal_escape c \<longleftrightarrow>
     ascii_byte c \<and> c \<noteq> CHR ''t'' \<and> c \<noteq> CHR ''n'' \<and> c \<noteq> CHR ''f'' \<and> c \<noteq> CHR ''r''
     \<and> c \<noteq> CHR ''u''"

fun key_item :: "item \<Rightarrow> bool" where
  "key_item (Plain c) \<longleftrightarrow> ascii_byte c \<and> c \<noteq> BS \<and> \<not> is_sep_byte c"
| "key_item (Escaped c) \<longleftrightarrow> literal_escape c"

fun value_item :: "item \<Rightarrow> bool" where
  "value_item (Plain c) \<longleftrightarrow> ascii_byte c \<and> c \<noteq> BS"
| "value_item (Escaped c) \<longleftrightarrow> literal_escape c"

section \<open>The serializer\<close>

text \<open>
  The body of the loop over the runes of the key in \<open>escape\<close>: what one iteration
  writes to the buffer \<open>b\<close>. \<open>size\<close> is the length of the bytes \<open>escapeRune\<close> left in
  \<open>buffer\<close>, and stays 0 when \<open>ascii\<close> is false.
\<close>

definition escape_key_rune :: "bool \<Rightarrow> rune \<Rightarrow> byte list" where
  "escape_key_rune ascii r =
     (let buf = (if ascii then escapeRune r else []) in
      if length buf = 0 then
        (if r = 0x0A then [BS, CHR ''n'']
         else if r = 0x0D then [BS, CHR ''r'']
         else (if isSpace r \<or> isDelimiter r \<or> isCommentPrefix r then [BS] else [])
              @ EncodeRune r)
      else buf)"

text \<open>The body of the loop over the runes of the value.\<close>

definition escape_value_rune :: "bool \<Rightarrow> rune \<Rightarrow> byte list" where
  "escape_value_rune ascii r =
     (let buf = (if ascii then escapeRune r else []) in
      if length buf = 0 then
        (if r = 0x0A then [BS, CHR ''n'']
         else if r = 0x0D then [BS, CHR ''r'']
         else (if isCommentPrefix r then [BS] else []) @ EncodeRune r)
      else buf)"

definition escape :: "string \<Rightarrow> string \<Rightarrow> bool \<Rightarrow> byte list" where
  "escape key val ascii =
     concat (map (escape_key_rune ascii) (range_string key))
     @ EncodeRune 0x3D
     @ (let r = fst (DecodeRune val) in if isSpace r \<or> isDelimiter r then [BS] else [])
     @ concat (map (escape_value_rune ascii) (range_string val))"

text \<open>
  \<open>escapeComment\<close>: the loop over the runes of the text, with the variable \<open>last\<close> (here \<open>lst\<close>) as
  argument.
\<close>

definition comment_rune :: "bool \<Rightarrow> rune \<Rightarrow> byte list" where
  "comment_rune ascii r =
     (let buf = (if ascii then escapeRune r else []) in
      if length buf = 0 then EncodeRune r else buf)"

fun escapeComment_loop :: "bool \<Rightarrow> rune \<Rightarrow> rune list \<Rightarrow> byte list" where
  "escapeComment_loop ascii lst [] = []"
| "escapeComment_loop ascii lst (r # rs) =
     (if r = 0x0A \<or> r = 0x0D then EncodeRune r @ escapeComment_loop ascii r rs
      else (if (lst = 0x0A \<or> lst = 0x0D) \<and> \<not> isCommentPrefix r then [CHR ''#''] else [])
           @ comment_rune ascii r @ escapeComment_loop ascii r rs)"

definition escapeComment :: "string \<Rightarrow> bool \<Rightarrow> byte list" where
  "escapeComment text ascii = escapeComment_loop ascii 0x0A (range_string text)"

text \<open>
  \<open>Store\<close> visits the pairs of the map in an order Go leaves unspecified; the model
  takes the pairs in the order visited. The writer is in memory and does not fail.
  The result is the bytes written and the count.
\<close>

definition Store :: "(string \<times> string) list \<Rightarrow> bool \<Rightarrow> byte list \<times> nat" where
  "Store pairs ascii =
     (concat (map (\<lambda>(key, val). escape key val ascii @ [LF]) pairs), length pairs)"

definition Save :: "(string \<times> string) list \<Rightarrow> string \<Rightarrow> bool \<Rightarrow> byte list \<times> nat" where
  "Save pairs comments ascii =
     (case Store pairs ascii of (out, count) \<Rightarrow>
        (escapeComment comments ascii @ [LF] @ out, count))"

section \<open>The command-line option parser\<close>

text \<open>
  The package \<open>getopt\<close> is present twice: \<open>src/getopt/getopt.go\<close>, whose method is
  \<open>Next\<close>, and a second file whose struct has one more field, \<open>done\<close> (here \<open>pdone\<close>),
  and whose method is \<open>Option\<close>. The indices start at 1 and 0 and are only incremented
  or reset to 0, so they are natural numbers. Indexing a string out of range panics.
\<close>

datatype opt_error = ErrOption | ErrNoArg

abbreviation EndOption :: rune where "EndOption \<equiv> - 1"

record Parser =
  args :: "string list"
  optIndex :: nat
  optPos :: nat
  opts :: string
  hasArg :: bool

record DParser = Parser +
  pdone :: bool

text \<open>\<open>strings.IndexByte\<close>: the index of the first occurrence, or \<open>-1\<close>.\<close>

fun IndexByte :: "string \<Rightarrow> byte \<Rightarrow> int" where
  "IndexByte [] b = - 1"
| "IndexByte (x # xs) b =
     (if x = b then 0 else (let i = IndexByte xs b in if i < 0 then - 1 else i + 1))"

type_synonym opt_result = "rune \<times> opt_error option"

text \<open>
  Three blocks of statements are the same text in \<open>Next\<close> and in \<open>Option\<close>, and are
  written once, for both structs. The first skips the argument of the previous option:
  \<open>if p.hasArg { p.optIndex++; p.optPos = 0; p.hasArg = false }\<close>.
\<close>

definition skip_optarg :: "'a Parser_scheme \<Rightarrow> 'a Parser_scheme" where
  "skip_optarg p =
     (if hasArg p then p\<lparr>optIndex := optIndex p + 1, optPos := 0, hasArg := False\<rparr> else p)"

text \<open>
  The second reads the option byte and advances:
  \<open>b := p.args[p.optIndex][p.optPos]; p.optPos++;
  if p.optPos >= len(p.args[p.optIndex]) { p.optIndex++; p.optPos = 0 }\<close>.
\<close>

definition take_byte :: "'a Parser_scheme \<Rightarrow> panic + (byte \<times> 'a Parser_scheme)" where
  "take_byte p =
     (if optPos p \<ge> length (args p ! optIndex p) then Inl IndexRange
      else Inr (args p ! optIndex p ! optPos p,
                if optPos p + 1 \<ge> length (args p ! optIndex p)
                then p\<lparr>optIndex := optIndex p + 1, optPos := 0\<rparr>
                else p\<lparr>optPos := optPos p + 1\<rparr>))"

text \<open>The third looks the byte up in the options string, up to the final \<open>return\<close>.\<close>

definition lookup_option :: "byte \<Rightarrow> 'a Parser_scheme \<Rightarrow> opt_result \<times> 'a Parser_scheme" where
  "lookup_option b p =
     (if (of_char b :: nat) \<le> 0x20 \<or> b = CHR '':'' \<or> b = CHR ''-'' \<or> (of_char b :: nat) \<ge> 0x7f
        then ((of_char b, Some ErrOption), p)
      else
        (let i = IndexByte (opts p) b in
         if i < 0 then ((of_char b, Some ErrOption), p)
         else
           (let i = i + 1 in
            if i < int (length (opts p)) \<and> opts p ! nat i = CHR '':'' then
              (if optIndex p \<ge> length (args p) then ((of_char b, Some ErrNoArg), p)
               else ((of_char b, None), p\<lparr>hasArg := True\<rparr>))
            else ((of_char b, None), p))))"

definition read_option :: "'a Parser_scheme \<Rightarrow> panic + (opt_result \<times> 'a Parser_scheme)" where
  "read_option p =
     (case take_byte p of Inl e \<Rightarrow> Inl e | Inr (b, p') \<Rightarrow> Inr (lookup_option b p'))"

text \<open>\<open>Parser.Next\<close> of \<open>src/getopt/getopt.go\<close>.\<close>

definition Next :: "Parser \<Rightarrow> panic + (opt_result \<times> Parser)" where
  "Next p0 =
     (let p = skip_optarg p0 in
      if optIndex p \<ge> length (args p) then Inr ((EndOption, None), p)
      else if optPos p = 0 then
        (let s = args p ! optIndex p in
         if length s \<le> 1 \<or> s ! 0 \<noteq> CHR ''-'' then Inr ((EndOption, None), p)
         else if length s = 2 \<and> s ! 1 = CHR ''-''
           then Inr ((EndOption, None), p\<lparr>optIndex := optIndex p + 1\<rparr>)
         else read_option (p\<lparr>optPos := 1\<rparr>))
      else read_option p)"

text \<open>\<open>Parser.Option\<close> of the second file.\<close>

definition Option :: "DParser \<Rightarrow> panic + (opt_result \<times> DParser)" where
  "Option p0 =
     (if pdone p0 then Inr ((EndOption, None), p0)
      else
        (let p = skip_optarg p0 in
         if optIndex p \<ge> length (args p) then Inr ((EndOption, None), p\<lparr>pdone := True\<rparr>)
         else if optPos p = 0 then
           (let s = args p ! optIndex p in
            if length s \<le> 1 \<or> s ! 0 \<noteq> CHR ''-''
              then Inr ((EndOption, None), p\<lparr>pdone := True\<rparr>)
            else if length s = 2 \<and> s ! 1 = CHR ''-''
              then Inr ((EndOption, None), p\<lparr>optIndex := optIndex p + 1, pdone := True\<rparr>)
            else read_option (p\<lparr>optPos := 1\<rparr>))
         else read_option p))"

text \<open>
  \<open>Args\<close> and \<open>NewParser\<close> have the same text in both files (\<open>NewParser\<close> of the second
  also sets \<open>done\<close> to false).
\<close>

definition Args :: "'a Parser_scheme \<Rightarrow> panic + string list" where
  "Args p = (let i = (if hasArg p then optIndex p + 1 else optIndex p) in slice_from (args p) i)"

definition NewParser :: "string list \<Rightarrow> string \<Rightarrow> Parser" where
  "NewParser a os = \<lparr>args = a, optIndex = 1, optPos = 0, opts = os, hasArg = False\<rparr>"

definition NewDParser :: "string list \<Rightarrow> string \<Rightarrow> DParser" where
  "NewDParser a os =
     \<lparr>args = a, optIndex = 1, optPos = 0, opts = os, hasArg = False, pdone = False\<rparr>"

text \<open>
  \<open>k\<close> successive calls of \<open>Next\<close> (of \<open>Option\<close>), with \<open>Args()\<close> called after each:
  the list of what the caller observes, or the panic that stops the program.
\<close>

type_synonym observation = "opt_result \<times> (panic + string list)"

fun Next_calls :: "nat \<Rightarrow> Parser \<Rightarrow> panic + observation list" where
  "Next_calls 0 p = Inr []"
| "Next_calls (Suc k) p =
     (case Next p of
        Inl e \<Rightarrow> Inl e
      | Inr (res, p') \<Rightarrow>
          (case Next_calls k p' of
             Inl e \<Rightarrow> Inl e
           | Inr obs \<Rightarrow> Inr ((res, Args p') # obs)))"

fun Option_calls :: "nat \<Rightarrow> DParser \<Rightarrow> panic + observation list" where
  "Option_calls 0 p = Inr []"
| "Option_calls (Suc k) p =
     (case Option p of
        Inl e \<Rightarrow> Inl e
      | Inr (res, p') \<Rightarrow>
          (case Option_calls k p' of
             Inl e \<Rightarrow> Inl e
           | Inr obs \<Rightarrow> Inr ((res, Args p') # obs)))"

text \<open>The two structs hold the same parser state when the five common fields agree.\<close>

definition same_state :: "DParser \<Rightarrow> Parser \<Rightarrow> bool" where
  "same_state dp p \<longleftrightarrow>
     args dp = args p \<and> optIndex dp = optIndex p \<and> optPos dp = optPos p
     \<and> opts dp = opts p \<and> hasArg dp = hasArg p"

section \<open>Tables and their defaults\<close>

text \<open>
  A \<open>*Table\<close> is a pointer and several tables may name the same defaults table; a Go
  map is a reference too, so two structs can hold the same map object. The store
  therefore has two levels: the table structs, and the map objects they refer to. A
  reference is an index into the list of objects allocated so far, and \<open>nil\<close> is
  \<open>None\<close>. \<open>make\<close> allocates the next map object.
\<close>

type_synonym table_ref = nat
type_synonym map_ref = nat

record Table =
  data :: "map_ref option"
  defaults :: "table_ref option"

record store =
  tables :: "Table list"
  maps :: "(string \<rightharpoonup> string) list"

definition make_map :: "(string \<rightharpoonup> string) \<Rightarrow> store \<Rightarrow> map_ref \<times> store" where
  "make_map m s = (length (maps s), s\<lparr>maps := maps s @ [m]\<rparr>)"

definition NewTableDefaults :: "table_ref option \<Rightarrow> store \<Rightarrow> table_ref \<times> store" where
  "NewTableDefaults d s =
     (case make_map Map.empty s of (r, s') \<Rightarrow>
        (length (tables s'), s'\<lparr>tables := tables s' @ [\<lparr>data = Some r, defaults = d\<rparr>]\<rparr>))"

definition NewTable :: "map_ref option \<Rightarrow> store \<Rightarrow> table_ref \<times> store" where
  "NewTable r s = (length (tables s), s\<lparr>tables := tables s @ [\<lparr>data = r, defaults = None\<rparr>]\<rparr>)"

text \<open>
  \<open>Set\<close>, \<open>Delete\<close> and \<open>Clear\<close> on the table at \<open>p\<close>. Assigning to a key of a map and
  \<open>delete\<close> change the map object in place; \<open>delete\<close> on a \<open>nil\<close> map does nothing.
\<close>

definition Set :: "table_ref \<Rightarrow> string \<Rightarrow> string \<Rightarrow> store \<Rightarrow> store" where
  "Set p key val s =
     (let s1 = (if data (tables s ! p) = None
                then (case make_map Map.empty s of (r, s') \<Rightarrow>
                        s'\<lparr>tables := (tables s')[p := (tables s' ! p)\<lparr>data := Some r\<rparr>]\<rparr>)
                else s)
      in case data (tables s1 ! p) of
           None \<Rightarrow> s1
         | Some r \<Rightarrow> s1\<lparr>maps := (maps s1)[r := (maps s1 ! r)(key \<mapsto> val)]\<rparr>)"

definition Delete :: "table_ref \<Rightarrow> string \<Rightarrow> store \<Rightarrow> store" where
  "Delete p key s =
     (case data (tables s ! p) of
        None \<Rightarrow> s
      | Some r \<Rightarrow> s\<lparr>maps := (maps s)[r := (maps s ! r)(key := None)]\<rparr>)"

definition Clear :: "table_ref \<Rightarrow> store \<Rightarrow> store" where
  "Clear p s =
     (case make_map Map.empty s of (r, s') \<Rightarrow>
        s'\<lparr>tables := (tables s')[p := (tables s' ! p)\<lparr>data := Some r\<rparr>]\<rparr>)"

text \<open>The key-value contents of the table at \<open>q\<close>; a \<open>nil\<close> map has no pairs.\<close>

definition contents :: "store \<Rightarrow> table_ref \<Rightarrow> (string \<rightharpoonup> string)" where
  "contents s q = (case data (tables s ! q) of None \<Rightarrow> Map.empty | Some r \<Rightarrow> maps s ! r)"

text \<open>
  The tables reached from the reference \<open>r\<close> by following \<open>defaults\<close> at most \<open>n\<close> times:
  the defaults chain of a table \<open>p\<close> is \<open>chain s n (defaults (tables s ! p))\<close>, for any
  \<open>n\<close>.
\<close>

fun chain :: "store \<Rightarrow> nat \<Rightarrow> table_ref option \<Rightarrow> table_ref list" where
  "chain s 0 r = []"
| "chain s (Suc n) None = []"
| "chain s (Suc n) (Some q) = q # chain s n (defaults (tables s ! q))"

text \<open>
  Every reference held in the store points to an allocated object, as every Go pointer
  that is not \<open>nil\<close> does.
\<close>

definition valid_table :: "store \<Rightarrow> Table \<Rightarrow> bool" where
  "valid_table s t \<longleftrightarrow>
     (case data t of None \<Rightarrow> True | Some r \<Rightarrow> r < length (maps s))
     \<and> (case defaults t of None \<Rightarrow> True | Some q \<Rightarrow> q < length (tables s))"

definition valid_store :: "store \<Rightarrow> bool" where
  "valid_store s \<longleftrightarrow> list_all (valid_table s) (tables s)"

text \<open>The table at \<open>p\<close> and the table at \<open>q\<close> do not hold the same map object.\<close>

definition own_map :: "store \<Rightarrow> table_ref \<Rightarrow> table_ref \<Rightarrow> bool" where
  "own_map s p q \<longleftrightarrow>
     (case data (tables s ! p) of None \<Rightarrow> True | Some r \<Rightarrow> data (tables s ! q) \<noteq> Some r)"

text \<open>
  An example store: the table 0 with one pair, and the table 1 whose defaults table is
  the table 0.
\<close>

definition two_tables :: store where
  "two_tables =
     \<lparr>tables = [\<lparr>data = Some 0, defaults = None\<rparr>, \<lparr>data = Some 1, defaults = Some 0\<rparr>],
      maps = [[''a'' \<mapsto> ''1''], [''a'' \<mapsto> ''2'']]\<rparr>"

section \<open>Properties of the escape codec\<close>

lemma DecodeRune_size_le4: "snd (DecodeRune p) \<le> 4"
  by (auto simp: DecodeRune_def Let_def first_info_def split: list.splits option.splits if_splits)

text \<open>
  A call of \<open>unescapeRune\<close> that reports six bytes never returns a surrogate: a
  surrogate read from \<open>\uXXXX\<close> always enters the pairing branch, which returns either
  \<open>RuneError\<close> or the result of \<open>utf16.DecodeRune\<close>.
\<close>

lemma unescapeRune_six_not_surrogate:
  assumes "unescapeRune p = (r, 6)"
  shows "\<not> IsSurrogate r"
proof -
  have d: "snd (DecodeRune (drop 1 p)) \<le> 4" by (rule DecodeRune_size_le4)
  have e: "\<not> IsSurrogate RuneError" by (simp add: IsSurrogate_def)
  from assms d e show ?thesis
    by (subst (asm) unescapeRune.simps)
      (auto simp: Let_def IsSurrogate_def split: if_splits prod.splits)
qed

lemma unescapeRune_never_twelve: "snd (unescapeRune p) \<noteq> 12"
proof -
  have d: "snd (DecodeRune (drop 1 p)) \<le> 4" by (rule DecodeRune_size_le4)
  have h: "snd (hex_loop p 2 (if length p > 6 then 6 else length p) 0) \<le> 6"
    using hex_loop_le [of p 2 "if length p > 6 then 6 else length p" 0]
    by (auto split: if_splits)
  show ?thesis
    using d h unescapeRune_six_not_surrogate [of "drop 6 p"]
    by (subst unescapeRune.simps) (auto simp: Let_def split: if_splits prod.splits)
qed

text \<open>
  Up to \<open>U+FFFF\<close> the two directions agree: a rune that is neither printable ASCII
  nor a surrogate is written as a backslash, \<open>u\<close> and its four hexadecimal digits,
  and \<open>unescapeRune\<close> reads these six bytes back as the rune, whatever follows.
\<close>

lemma nibble: "0x0f AND (x::int) = take_bit 4 x"
  by (simp add: take_bit_eq_mask mask_eq_exp_minus_1 and.commute)

lemma nibble_bounds: "0 \<le> take_bit 4 (x::int)" "take_bit 4 (x::int) \<le> 15"
  using take_bit_int_less_exp [of 4 x] by simp_all

lemma of_char_byte: "0 \<le> (n::int) \<Longrightarrow> n < 256 \<Longrightarrow> (of_char (char_of n) :: nat) = nat n"
proof -
  assume a: "0 \<le> n" "n < 256"
  have "(of_char (char_of n) :: int) = n mod 256" by (rule of_char_of)
  with a have "(of_char (char_of n) :: int) = n" by simp
  then have "int (of_char (char_of n) :: nat) = n" by (simp add: of_nat_of_char)
  then show ?thesis by linarith
qed

lemma hex_digit_value:
  obtains d where "take_bit 4 x = int d" "d \<le> 15"
    "(of_char (hex_digit x) :: nat) = (if d > 9 then d + 87 else d + 48)"
proof -
  let ?d = "nat (take_bit 4 x)"
  have 1: "take_bit 4 x = int ?d" using nibble_bounds [of x] by simp
  have 2: "?d \<le> 15" using nibble_bounds [of x] by simp
  have 3: "(of_char (hex_digit x) :: nat) = (if ?d > 9 then ?d + 87 else ?d + 48)"
    using nibble_bounds [of x]
    by (auto simp: hex_digit_def nibble Let_def of_char_byte nat_add_distrib)
  from 1 2 3 show thesis by (rule that)
qed

lemma hex_loop_step_digit:
  assumes "i < n" and "p ! i = hex_digit x"
  shows "hex_loop p i n acc = hex_loop p (i + 1) n (push_bit 4 acc OR take_bit 4 x)"
proof -
  obtain d where d: "take_bit 4 x = int d" "d \<le> 15"
    "(of_char (hex_digit x) :: nat) = (if d > 9 then d + 87 else d + 48)"
    by (rule hex_digit_value)
  show ?thesis
  proof (cases "d > 9")
    case True
    with d assms show ?thesis
      by (subst hex_loop.simps) (simp add: Let_def)
  next
    case False
    with d assms show ?thesis
      by (subst hex_loop.simps) (simp add: Let_def)
  qed
qed

lemma bits_step:
  "push_bit 4 (push_bit (4 * k) acc OR take_bit (4 * k) (drop_bit 4 x)) OR take_bit 4 (x::int)
     = push_bit (4 * Suc k) acc OR take_bit (4 * Suc k) x"
  by (rule bit_eqI) (auto simp: bit_simps)


lemma length_hex_digits [simp]: "length (hex_digits k x) = k"
  by (induction k arbitrary: x) simp_all

lemma hex_loop_digits:
  "length pre + k \<le> n \<Longrightarrow>
   hex_loop (pre @ hex_digits k x @ rest) (length pre) n acc
     = hex_loop (pre @ hex_digits k x @ rest) (length pre + k) n
         (push_bit (4 * k) acc OR take_bit (4 * k) x)"
proof (induction k arbitrary: x rest)
  case 0
  show ?case by simp
next
  case (Suc k)
  let ?p = "pre @ hex_digits k (drop_bit 4 x) @ (hex_digit x # rest)"
  let ?acc = "push_bit (4 * k) acc OR take_bit (4 * k) (drop_bit 4 x)"
  have p: "pre @ hex_digits (Suc k) x @ rest = ?p" by simp
  from Suc.prems have le: "length pre + k \<le> n" and lt: "length pre + k < n" by simp_all
  have nth: "?p ! (length pre + k) = hex_digit x"
    by (simp add: nth_append)
  have "hex_loop ?p (length pre) n acc = hex_loop ?p (length pre + k) n ?acc"
    using le by (rule Suc.IH)
  also have "\<dots> = hex_loop ?p (length pre + k + 1) n (push_bit 4 ?acc OR take_bit 4 x)"
    using lt nth by (rule hex_loop_step_digit)
  also have "push_bit 4 ?acc OR take_bit 4 x
      = push_bit (4 * Suc k) acc OR take_bit (4 * Suc k) x"
    by (rule bits_step)
  finally show ?case unfolding p by simp
qed

lemma escapeRune_unescapeRune_bmp:
  assumes "0 \<le> r" and "r \<le> 0xFFFF" and "\<not> (0x20 \<le> r \<and> r \<le> 0x7e)" and "\<not> IsSurrogate r"
  shows "escapeRune r = BS # CHR ''u'' # hex_digits 4 r"
    and "unescapeRune (escapeRune r @ rest) = (r, 6)"
proof -
  show e: "escapeRune r = BS # CHR ''u'' # hex_digits 4 r"
    using assms by (simp add: escapeRune_def escapeRune1_def)
  let ?p = "[BS, CHR ''u''] @ hex_digits 4 r @ rest"
  have p: "escapeRune r @ rest = ?p" by (simp add: e)
  have d: "DecodeRune (drop 1 ?p) = (0x75, 1)" by (simp add: DecodeRune_def)
  have t: "take_bit 16 r = r" using assms(1,2) by (simp add: take_bit_int_eq_self)
  have "hex_loop ?p (length [BS, CHR ''u'']) 6 0
      = hex_loop ?p (length [BS, CHR ''u''] + 4) 6 (push_bit (4 * 4) 0 OR take_bit (4 * 4) r)"
    by (rule hex_loop_digits) simp
  also have "\<dots> = (r, 6)" by (subst hex_loop.simps) (simp add: t)
  finally have h: "hex_loop ?p 2 6 0 = (r, 6)" by (simp add: numeral_2_eq_2)
  have n: "(if 6 < length ?p then 6 else length ?p) = 6" by simp
  have "unescapeRune ?p = (r, 6)"
    apply (subst unescapeRune.simps)
    apply (subst n)
    using d h assms(4) apply (simp add: Let_def)
    done
  then show "unescapeRune (escapeRune r @ rest) = (r, 6)"
    unfolding p .
qed

text \<open>
  A surrogate written as \<open>\uXXXX\<close> is read back as the replacement rune with six
  bytes consumed, whatever follows it, a second surrogate included.
\<close>

lemma unescapeRune_surrogate_never_paired:
  assumes "IsSurrogate r"
  shows "unescapeRune (escapeRune1 r @ rest) = (RuneError, 6)"
proof -
  from assms have r: "0 \<le> r" "r \<le> 0xFFFF" "\<not> (0x20 \<le> r \<and> r \<le> 0x7e)"
    by (simp_all add: IsSurrogate_def)
  then have e: "escapeRune1 r = BS # CHR ''u'' # hex_digits 4 r"
    by (simp add: escapeRune1_def)
  let ?p = "[BS, CHR ''u''] @ hex_digits 4 r @ rest"
  have p: "escapeRune1 r @ rest = ?p" by (simp add: e)
  have d: "DecodeRune (drop 1 ?p) = (0x75, 1)" by (simp add: DecodeRune_def)
  have t: "take_bit 16 r = r" using r(1,2) by (simp add: take_bit_int_eq_self)
  have "hex_loop ?p (length [BS, CHR ''u'']) 6 0
      = hex_loop ?p (length [BS, CHR ''u''] + 4) 6 (push_bit (4 * 4) 0 OR take_bit (4 * 4) r)"
    by (rule hex_loop_digits) simp
  also have "\<dots> = (r, 6)" by (subst hex_loop.simps) (simp add: t)
  finally have h: "hex_loop ?p 2 6 0 = (r, 6)" by (simp add: numeral_2_eq_2)
  have n: "(if 6 < length ?p then 6 else length ?p) = 6" by simp
  obtain r2 sz2 where u: "unescapeRune (drop 6 ?p) = (r2, sz2)"
    by (cases "unescapeRune (drop 6 ?p)")
  with unescapeRune_six_not_surrogate [of "drop 6 ?p" r2]
  have c: "sz2 \<noteq> 6 \<or> \<not> IsSurrogate r2" by auto
  have "unescapeRune ?p = (RuneError, 6)"
    apply (subst unescapeRune.simps)
    apply (subst n)
    using d h assms u c apply (simp add: Let_def)
    done
  then show ?thesis unfolding p .
qed

section \<open>Properties of the natural-line reader\<close>

text \<open>
  The variable \<open>esc\<close> of \<open>loadBytes\<close> after the bytes of a line have been copied: it
  is toggled by a backslash and reset by any other byte, so at the end of the line it
  tells whether the trailing run of backslashes is odd.
\<close>

fun esc_after :: "bool \<Rightarrow> byte list \<Rightarrow> bool" where
  "esc_after esc [] = esc"
| "esc_after esc (x # l) = esc_after (if x = BS then \<not> esc else False) l"

lemma esc_after_snoc:
  "esc_after esc (l @ [x]) = (if x = BS then \<not> esc_after esc l else False)"
  by (induction l arbitrary: esc) simp_all

lemma trailing_snoc:
  "trailing_backslashes (l @ [x]) = (if x = BS then Suc (trailing_backslashes l) else 0)"
  by (simp add: trailing_backslashes_def)

lemma esc_after_odd: "esc_after False l = odd (trailing_backslashes l)"
proof (induction l rule: rev_induct)
  case Nil
  show ?case by (simp add: trailing_backslashes_def)
next
  case (snoc x l)
  then show ?case by (simp add: esc_after_snoc trailing_snoc)
qed

lemma copy_line_eol:
  "y = LF \<or> y = CR \<Longrightarrow> copy_line y s esc b = CopyEol y s esc b"
  by (cases s) auto

lemma copy_line_natural:
  "eol_free (x # l) \<Longrightarrow> y = LF \<or> y = CR \<Longrightarrow>
   copy_line x (l @ y # rest) esc b = CopyEol y rest (esc_after esc (x # l)) (b @ x # l)"
proof (induction l arbitrary: x esc b)
  case Nil
  then have "x \<noteq> LF \<and> x \<noteq> CR" by (auto simp: eol_free_def)
  then have "copy_line x (y # rest) esc b = copy_line y rest (if x = BS then \<not> esc else False) (b @ [x])"
    by simp
  also have "\<dots> = CopyEol y rest (if x = BS then \<not> esc else False) (b @ [x])"
    using Nil.prems(2) by (rule copy_line_eol)
  finally show ?case by simp
next
  case (Cons z l)
  from Cons.prems have x: "x \<noteq> LF \<and> x \<noteq> CR" and e: "eol_free (z # l)"
    by (auto simp: eol_free_def)
  from x have "copy_line x ((z # l) @ y # rest) esc b
      = copy_line z (l @ y # rest) (if x = BS then \<not> esc else False) (b @ [x])"
    by simp
  also have "\<dots> = CopyEol y rest (esc_after (if x = BS then \<not> esc else False) (z # l)) ((b @ [x]) @ z # l)"
    using e Cons.prems(2) by (rule Cons.IH)
  finally show ?case by simp
qed

lemma after_eol_complete:
  assumes "complete_eol e rest"
  obtains y e' where "e = y # e'" "y = LF \<or> y = CR" "after_eol y (e' @ rest) = Some rest"
proof -
  from assms consider "e = [LF]" | "e = [CR, LF]" | "e = [CR]" "rest \<noteq> []" "hd rest \<noteq> LF"
    by (auto simp: complete_eol_def)
  then show thesis
  proof cases
    case 1
    then show thesis using that [of LF "[]"] by (simp add: after_eol_def)
  next
    case 2
    then show thesis using that [of CR "[LF]"] by (simp add: after_eol_def)
  next
    case 3
    then show thesis using that [of CR "[]"] by (cases rest) (simp_all add: after_eol_def)
  qed
qed

lemma dropWhile_natural:
  assumes "eol_free nl" "e = y # e'" "y = LF \<or> y = CR"
  shows "dropWhile is_space_byte (nl @ e @ rest) = dropWhile is_space_byte nl @ e @ rest"
proof (cases "\<forall>x \<in> set nl. is_space_byte x")
  case True
  then have 1: "dropWhile is_space_byte (nl @ e @ rest) = dropWhile is_space_byte (e @ rest)"
    by (intro dropWhile_append2) simp
  have "\<not> is_space_byte y" using assms(3) by (auto simp: is_space_byte_def)
  then have 2: "dropWhile is_space_byte (e @ rest) = e @ rest" using assms(2) by simp
  have 3: "dropWhile is_space_byte nl = []" using True by simp
  show ?thesis unfolding 1 2 3 by simp
next
  case False
  then obtain x where "x \<in> set nl" "\<not> is_space_byte x" by blast
  then show ?thesis by (rule dropWhile_append1)
qed

lemma loadBytes_loop_step:
  assumes "dropWhile is_space_byte s = x # s1"
    and "copy_line x s1 False b = CopyEol x' s2 esc b'"
    and "after_eol x' s2 = Some s3"
  shows "loadBytes_loop fin b s =
     (if \<not> ((x = CHR ''#'' \<or> x = CHR ''!'') \<and> length b = 0)
      then (if esc then loadBytes_loop fin (butlast b') s3 else (b', None, s3))
      else (b', None, s3))"
  using assms by (subst loadBytes_loop.simps) (simp add: Let_def)

lemma loadBytes_loop_natural_line:
  assumes nl: "eol_free nl" and nc: "\<not> is_comment b (dropWhile is_space_byte nl)"
    and ce: "complete_eol e rest"
  shows "loadBytes_loop fin b (nl @ e @ rest) =
        (if odd (trailing_backslashes (dropWhile is_space_byte nl))
         then loadBytes_loop fin (b @ butlast (dropWhile is_space_byte nl)) rest
         else (b @ dropWhile is_space_byte nl, None, rest))"
proof -
  define l where "l = dropWhile is_space_byte nl"
  from ce obtain y e' where e: "e = y # e'" and y: "y = LF \<or> y = CR"
    and a: "after_eol y (e' @ rest) = Some rest"
    by (rule after_eol_complete)
  have d: "dropWhile is_space_byte (nl @ e @ rest) = l @ y # e' @ rest"
    unfolding l_def using dropWhile_natural [OF nl e y, of rest] e by simp
  have ef: "eol_free l"
    unfolding l_def using nl set_dropWhileD [of _ is_space_byte nl] by (auto simp: eol_free_def)
  have nc': "\<not> is_comment b l" using nc by (simp add: l_def)
  have "loadBytes_loop fin b (nl @ e @ rest) =
        (if odd (trailing_backslashes l) then loadBytes_loop fin (b @ butlast l) rest
         else (b @ l, None, rest))"
  proof (cases l)
    case Nil
    have ny: "\<not> ((y = CHR ''#'' \<or> y = CHR ''!'') \<and> length b = 0)" using y by auto
    have t: "trailing_backslashes [] = 0" by (simp add: trailing_backslashes_def)
    have d': "dropWhile is_space_byte (nl @ e @ rest) = y # e' @ rest" using d Nil by simp
    have c: "copy_line y (e' @ rest) False b = CopyEol y (e' @ rest) False b"
      using y by (rule copy_line_eol)
    show ?thesis
      unfolding loadBytes_loop_step [OF d' c a] Nil using ny t by simp
  next
    case (Cons x l')
    have d': "dropWhile is_space_byte (nl @ e @ rest) = x # (l' @ y # e' @ rest)"
      using d Cons by simp
    have c: "copy_line x (l' @ y # e' @ rest) False b
        = CopyEol y (e' @ rest) (odd (trailing_backslashes l)) (b @ l)"
      using copy_line_natural [of x l' y "e' @ rest" False b] y esc_after_odd [of l] ef Cons
      by simp
    from nc' Cons have dn: "\<not> ((x = CHR ''#'' \<or> x = CHR ''!'') \<and> length b = 0)"
      by (auto simp: is_comment_def)
    have bl: "butlast (b @ l) = b @ butlast l" using Cons by (simp add: butlast_append)
    show ?thesis
      unfolding loadBytes_loop_step [OF d' c a] bl using dn by simp
  qed
  then show ?thesis by (simp add: l_def)
qed

text \<open>
  A natural line that ends with the input: \<open>ReadByte\<close> fails in the copying loop, and
  \<open>loadBytes\<close> returns the line with the error of the reader.
\<close>

lemma copy_line_no_eol:
  "eol_free (x # l) \<Longrightarrow> copy_line x l esc b = CopyEof (b @ x # l)"
proof (induction l arbitrary: x esc b)
  case Nil
  then show ?case by (auto simp: eol_free_def)
next
  case (Cons y l)
  from Cons.prems have x: "x \<noteq> LF \<and> x \<noteq> CR" and e: "eol_free (y # l)"
    by (auto simp: eol_free_def)
  from x have "copy_line x (y # l) esc b = copy_line y l (if x = BS then \<not> esc else False) (b @ [x])"
    by simp
  also have "\<dots> = CopyEof ((b @ [x]) @ y # l)" by (rule Cons.IH [OF e])
  finally show ?case by simp
qed

lemma loadBytes_single_line:
  assumes "eol_free l" and "l \<noteq> []" and "\<not> is_space_byte (hd l)"
  shows "loadBytes fin l = (l, Some fin, [])"
proof -
  from assms(2) obtain x l' where l: "l = x # l'" by (cases l) auto
  with assms(3) have d: "dropWhile is_space_byte l = x # l'" by simp
  from assms(1) l have "copy_line x l' False [] = CopyEof ([] @ x # l')"
    by (simp only: copy_line_no_eol)
  with d l show ?thesis
    unfolding loadBytes_def by (subst loadBytes_loop.simps) (simp add: Let_def)
qed

text \<open>
  A natural line followed by a \<open>\r\<close> that is the last byte of the input: the
  \<open>ReadByte\<close> after the \<open>\r\<close> fails and \<open>loadBytes\<close> returns what it has
  accumulated, before the test of \<open>esc\<close>. The example of a continued line in the test
  \<open>TestLoadString\<close> follows.
\<close>

lemma loadBytes_loop_lone_cr:
  assumes nl: "eol_free nl"
  shows "loadBytes_loop fin b (nl @ [CR]) = (b @ dropWhile is_space_byte nl, Some fin, [])"
proof -
  define l where "l = dropWhile is_space_byte nl"
  have d: "dropWhile is_space_byte (nl @ [CR]) = l @ [CR]"
    unfolding l_def using dropWhile_natural [OF nl, of "[CR]" CR "[]" "[]"] by simp
  have ef: "eol_free l"
    unfolding l_def using nl set_dropWhileD [of _ is_space_byte nl] by (auto simp: eol_free_def)
  have a: "after_eol CR [] = None" by (simp add: after_eol_def)
  have "loadBytes_loop fin b (nl @ [CR]) = (b @ l, Some fin, [])"
  proof (cases l)
    case Nil
    with d have d': "dropWhile is_space_byte (nl @ [CR]) = [CR]" by simp
    have c: "copy_line CR [] False b = CopyEol CR [] False b" by simp
    show ?thesis
      by (subst loadBytes_loop.simps) (simp add: d' c a Nil Let_def)
  next
    case (Cons x l')
    with d have d': "dropWhile is_space_byte (nl @ [CR]) = x # (l' @ [CR])" by simp
    have c: "copy_line x (l' @ [CR]) False b
        = CopyEol CR [] (esc_after False (x # l')) (b @ x # l')"
      using copy_line_natural [of x l' CR "[]" False b] ef Cons by simp
    show ?thesis
      by (subst loadBytes_loop.simps) (simp add: d' c a Cons Let_def)
  qed
  then show ?thesis by (simp add: l_def)
qed

lemma LoadString_continuation_example:
  "LoadString Map.empty (''key value1 '' @ [BS, LF] @ ''    value2'')
     = Inr ([''key'' \<mapsto> ''value1 value2''], 1, None)"
proof -
  let ?in = "''key value1 '' @ [BS, LF] @ ''    value2''"
  have bytes: "loadBytes EOF ?in = (''key value1 value2'', Some EOF, [])"
    by code_simp
  have key: "unescape ''key value1 value2'' True = Inr (''key'', 4)"
    by code_simp
  have val: "unescape (drop 4 ''key value1 value2'') False = Inr (''value1 value2'', 13)"
    by code_simp
  show ?thesis
    using bytes [simplified] key val [simplified]
    by (simp add: LoadString_def Load_def Load_loop.simps load_line_def slice_from_def)
qed

text \<open>
  The only error \<open>loadBytes\<close> returns is the one its reader ends with, and \<open>Load\<close>
  returns \<open>nil\<close> when that is \<open>io.EOF\<close> and the reader's failure otherwise: when
  \<open>Load\<close> returns at all, it reports no error of its own.
\<close>

lemma loadBytes_loop_error:
  "loadBytes_loop fin b s = (b', Some e, s') \<Longrightarrow> e = fin"
proof (induction fin b s rule: loadBytes_loop.induct)
  case (1 fin b s)
  show ?case
  proof (cases "dropWhile is_space_byte s")
    case Nil
    with "1.prems" show ?thesis by (subst (asm) loadBytes_loop.simps) simp
  next
    case (Cons x s1)
    show ?thesis
    proof (cases "copy_line x s1 False b")
      case (CopyEof b1)
      with "1.prems" Cons show ?thesis by (subst (asm) loadBytes_loop.simps) simp
    next
      case (CopyEol x' s2 esc b1)
      show ?thesis
      proof (cases "after_eol x' s2")
        case None
        with "1.prems" Cons CopyEol show ?thesis by (subst (asm) loadBytes_loop.simps) simp
      next
        case (Some s3)
        show ?thesis
        proof (cases "\<not> ((x = CHR ''#'' \<or> x = CHR ''!'') \<and> length b = 0) \<and> esc")
          case True
          with "1.prems" Cons CopyEol Some
          have "loadBytes_loop fin (butlast b1) s3 = (b', Some e, s')"
            by (subst (asm) loadBytes_loop.simps) (simp add: Let_def)
          with "1.IH" [OF Cons refl CopyEol Some] True show ?thesis by simp
        next
          case False
          with "1.prems" Cons CopyEol Some show ?thesis
            by (subst (asm) loadBytes_loop.simps) (auto simp: Let_def split: if_splits)
        qed
      qed
    qed
  qed
qed

lemma Load_loop_error:
  "Load_loop fin m c s = Inr (m', c', e) \<Longrightarrow> e = (if fin = EOF then None else Some fin)"
proof (induction fin m c s rule: Load_loop.induct)
  case (1 fin m c s)
  obtain b e0 s1 where lb: "loadBytes fin s = (b, e0, s1)" by (cases "loadBytes fin s")
  show ?case
  proof (cases "load_line b m c")
    case (Inl pn)
    with "1.prems" lb show ?thesis by (subst (asm) Load_loop.simps) simp
  next
    case (Inr mc)
    obtain m1 c1 where mc: "mc = (m1, c1)" by (cases mc)
    show ?thesis
    proof (cases e0)
      case None
      with "1.prems" lb Inr mc have "Load_loop fin m1 c1 s1 = Inr (m', c', e)"
        by (subst (asm) Load_loop.simps) simp
      with "1.IH" [of b "(e0, s1)" e0 s1 "(m1, c1)" m1 c1] lb Inr mc None show ?thesis
        by simp
    next
      case (Some err)
      with lb have "err = fin" by (simp add: loadBytes_def loadBytes_loop_error)
      with "1.prems" lb Inr mc Some show ?thesis
        by (subst (asm) Load_loop.simps) (auto split: if_splits)
    qed
  qed
qed

section \<open>Properties of the comment writer\<close>

text \<open>
  An ASCII byte is never taken into a multi-byte sequence by \<open>utf8.DecodeRune\<close>, so
  the runes of a text split at every end-of-line byte.
\<close>

lemma range_string_Nil [simp]: "range_string [] = []"
  by (subst range_string.simps) simp

lemma range_string_nonempty:
  "p \<noteq> [] \<Longrightarrow> range_string p = fst (DecodeRune p) # range_string (drop (snd (DecodeRune p)) p)"
  by (subst range_string.simps) simp

lemma first_info_range:
  "first_info c = Some (sz, lo, hi) \<Longrightarrow> (sz = 2 \<or> sz = 3 \<or> sz = 4) \<and> 0x80 \<le> lo \<and> 0x80 \<le> c"
  by (auto simp: first_info_def split: if_splits)

lemma DecodeRune_ascii: "(of_char c :: nat) < 0x80 \<Longrightarrow> DecodeRune (c # p) = (int (of_char c), 1)"
  by (simp add: DecodeRune_def)

lemma DecodeRune_append_ascii:
  assumes "p \<noteq> []" and e: "(of_char e :: nat) < 0x80"
  shows "DecodeRune (p @ e # rest) = DecodeRune p"
proof (cases "first_info (of_char (hd p))")
  case None
  with assms(1) show ?thesis by (cases p) (simp_all add: DecodeRune_def Let_def)
next
  case (Some t)
  obtain sz lo hi where t: "t = (sz, lo, hi)" by (cases t)
  from Some t have r: "sz = 2 \<or> sz = 3 \<or> sz = 4" "0x80 \<le> lo" "0x80 \<le> (of_char (hd p) :: nat)"
    using first_info_range [of "of_char (hd p)" sz lo hi] by auto
  consider (1) a where "p = [a]" | (2) a b where "p = [a, b]" | (3) a b c where "p = [a, b, c]"
    | (4) a b c d q where "p = a # b # c # d # q"
    using assms(1) by (metis list.exhaust)
  then show ?thesis
  proof cases
    case 1
    with Some t r e show ?thesis by (auto simp: DecodeRune_def Let_def)
  next
    case 2
    with Some t r e show ?thesis by (auto simp: DecodeRune_def Let_def)
  next
    case 3
    with Some t r e show ?thesis by (auto simp: DecodeRune_def Let_def)
  next
    case 4
    with Some t r e show ?thesis by (auto simp: DecodeRune_def Let_def)
  qed
qed

lemma range_string_append_ascii:
  assumes e: "(of_char e :: nat) < 0x80"
  shows "range_string (p @ e # rest) = range_string p @ int (of_char e) # range_string rest"
proof (induction p rule: range_string.induct)
  case (1 p)
  show ?case
  proof (cases "p = []")
    case True
    then show ?thesis
      using e by (simp add: range_string_nonempty [of "e # rest"] DecodeRune_ascii)
  next
    case False
    have d: "DecodeRune (p @ e # rest) = DecodeRune p" using False e by (rule DecodeRune_append_ascii)
    have l: "snd (DecodeRune p) \<le> length p" by (rule DecodeRune_size_le)
    have "range_string (p @ e # rest)
        = fst (DecodeRune p) # range_string (drop (snd (DecodeRune p)) p @ e # rest)"
      using False l by (simp add: range_string_nonempty [of "p @ e # rest"] d)
    also have "\<dots> = fst (DecodeRune p) # (range_string (drop (snd (DecodeRune p)) p)
        @ int (of_char e) # range_string rest)"
      using "1.IH" [OF False] by simp
    also have "\<dots> = range_string p @ int (of_char e) # range_string rest"
      using False by (simp add: range_string_nonempty [of p])
    finally show ?thesis .
  qed
qed


lemma nat_mod_window: "k * m \<le> (c::nat) \<Longrightarrow> c < k * m + m \<Longrightarrow> c mod m = c - k * m"
proof -
  assume a: "k * m \<le> c" and b: "c < k * m + m"
  then have "c = (c - k * m) + k * m" by simp
  then have "c mod m = ((c - k * m) + k * m) mod m" by simp
  also have "\<dots> = (c - k * m) mod m" by (rule mod_mult_self1 [of "c - k * m" k m, simplified mult.commute [of m k]] mod_mult_self3)
  also have "\<dots> = c - k * m" using a b by simp
  finally show ?thesis .
qed

lemma two_byte_value_ge:
  assumes "first_info c = Some (sz, lo, hi)" "sz \<le> 2"
  shows "128 \<le> (c mod 32) * 64 + b mod 64"
proof -
  from assms have "194 \<le> c" "c < 224" by (auto simp: first_info_def split: if_splits)
  with nat_mod_window [of 6 32 c] have "2 \<le> c mod 32" by simp
  then show ?thesis by simp
qed

lemma three_byte_value_ge:
  assumes "first_info c = Some (sz, lo, hi)" "\<not> sz \<le> 2" "sz \<le> 3" "\<not> (b1 < lo \<or> hi < b1)"
  shows "128 \<le> (c mod 16) * 4096 + (b1 mod 64) * 64 + b2 mod 64"
proof -
  from assms consider (a) "c = 224" "160 \<le> b1" "b1 \<le> 191" | (b) "225 \<le> c" "c < 240"
    by (auto simp: first_info_def split: if_splits)
  then show ?thesis
  proof cases
    case a
    with nat_mod_window [of 2 64 b1] have "32 \<le> b1 mod 64" by simp
    then show ?thesis by simp
  next
    case b
    with nat_mod_window [of 14 16 c] have "1 \<le> c mod 16" by simp
    then show ?thesis by simp
  qed
qed

lemma four_byte_value_ge:
  assumes "first_info c = Some (sz, lo, hi)" "\<not> sz \<le> 3" "\<not> (b1 < lo \<or> hi < b1)"
  shows "128 \<le> (c mod 8) * 262144 + (b1 mod 64) * 4096 + (b2 mod 64) * 64 + b3 mod 64"
proof -
  from assms consider (a) "c = 240" "144 \<le> b1" "b1 \<le> 191" | (b) "241 \<le> c" "c < 245"
    by (auto simp: first_info_def split: if_splits)
  then show ?thesis
  proof cases
    case a
    with nat_mod_window [of 2 64 b1] have "16 \<le> b1 mod 64" by simp
    then show ?thesis by simp
  next
    case b
    with nat_mod_window [of 30 8 c] have "1 \<le> c mod 8" by simp
    then show ?thesis by simp
  qed
qed

lemma int_ge_128: "(128::nat) \<le> n \<Longrightarrow> (128::int) \<le> int n"
  by simp

lemma DecodeRune_multibyte_ge:
  assumes "p \<noteq> []" and "\<not> (of_char (hd p) :: nat) < 0x80"
  shows "0x80 \<le> fst (DecodeRune p)"
proof -
  from assms(1) obtain a q where p: "p = a # q" by (cases p) auto
  show ?thesis
  proof (cases "first_info (of_char a)")
    case None
    with assms(2) p show ?thesis by (simp add: DecodeRune_def Let_def)
  next
    case (Some t)
    obtain sz lo hi where t: "t = (sz, lo, hi)" by (cases t)
    note f = Some [unfolded t]
    have 2: "\<And>b. sz \<le> 2 \<Longrightarrow> (128::int) \<le> int ((of_char a mod 32) * 64 + b mod 64)"
      by (rule int_ge_128, rule two_byte_value_ge [OF f])
    have 3: "\<And>b1 b2. \<not> sz \<le> 2 \<Longrightarrow> sz \<le> 3 \<Longrightarrow> \<not> (b1 < lo \<or> hi < b1) \<Longrightarrow>
        (128::int) \<le> int ((of_char a mod 16) * 4096 + (b1 mod 64) * 64 + b2 mod 64)"
      by (rule int_ge_128, rule three_byte_value_ge [OF f])
    have 4: "\<And>b1 b2 b3. \<not> sz \<le> 3 \<Longrightarrow> \<not> (b1 < lo \<or> hi < b1) \<Longrightarrow>
        (128::int) \<le> int ((of_char a mod 8) * 262144 + (b1 mod 64) * 4096 + (b2 mod 64) * 64 + b3 mod 64)"
      by (rule int_ge_128, rule four_byte_value_ge [OF f])
    show ?thesis
      unfolding p DecodeRune_def Let_def list.case f option.case prod.case
      using assms(2) p 2 3 4
      by (simp del: of_nat_add of_nat_mult)
  qed
qed

lemma DecodeRune_small:
  assumes "p \<noteq> []" and "fst (DecodeRune p) < 0x80"
  shows "fst (DecodeRune p) = int (of_char (hd p)) \<and> (of_char (hd p) :: nat) < 0x80"
proof (cases "(of_char (hd p) :: nat) < 0x80")
  case True
  with assms(1) show ?thesis by (cases p) (simp_all add: DecodeRune_ascii)
next
  case False
  with assms DecodeRune_multibyte_ge [of p] have False by simp
  then show ?thesis ..
qed

lemma DecodeRune_first_byte:
  assumes "p \<noteq> []" and "fst (DecodeRune p) = of_char c" and "(of_char c :: int) < 0x80"
  shows "hd p = c"
proof -
  from assms(2,3) have "fst (DecodeRune p) < 0x80" by simp
  from DecodeRune_small [OF assms(1) this] assms(2)
  have "(of_char (hd p) :: int) = of_char c" by (simp add: of_nat_of_char)
  then show ?thesis by (simp only: of_char_eq_iff)
qed

lemma EncodeRune_eol: "EncodeRune 0x0A = [LF]" "EncodeRune 0x0D = [CR]"
  by code_simp+

lemma escapeComment_loop_last:
  "escapeComment_loop ascii 0x0D rs = escapeComment_loop ascii 0x0A rs"
  by (cases rs) simp_all

lemma escapeComment_loop_eol:
  "r = 0x0A \<or> r = 0x0D \<Longrightarrow>
   escapeComment_loop ascii lst (rs1 @ r # rs2)
     = escapeComment_loop ascii lst rs1 @ EncodeRune r @ escapeComment_loop ascii 0x0A rs2"
proof (induction rs1 arbitrary: lst)
  case Nil
  then show ?case using escapeComment_loop_last [of ascii rs2] by auto
next
  case (Cons a rs1)
  from Cons.IH [OF Cons.prems] show ?case by simp
qed

lemma escapeComment_eol:
  assumes "e = LF \<or> e = CR"
  shows "escapeComment (l @ e # rest) ascii
           = escapeComment l ascii @ e # escapeComment rest ascii"
proof -
  from assms have a: "(of_char e :: nat) < 0x80" by auto
  from assms have r: "int (of_char e) = 0x0A \<or> int (of_char e) = 0x0D" by auto
  from assms have c: "EncodeRune (int (of_char e)) = [e]" using EncodeRune_eol by auto
  show ?thesis
    unfolding escapeComment_def range_string_append_ascii [OF a]
      escapeComment_loop_eol [OF r] c by simp
qed

lemma range_string_no_eol:
  "eol_free l \<Longrightarrow> 0x0A \<notin> set (range_string l) \<and> 0x0D \<notin> set (range_string l)"
proof (induction l rule: range_string.induct)
  case (1 p)
  show ?case
  proof (cases "p = []")
    case True
    then show ?thesis by simp
  next
    case False
    let ?r = "fst (DecodeRune p)" and ?n = "snd (DecodeRune p)"
    have hd: "hd p \<in> set p" using False by simp
    have "?r \<noteq> 0x0A \<and> ?r \<noteq> 0x0D"
    proof (rule ccontr)
      assume "\<not> (?r \<noteq> 0x0A \<and> ?r \<noteq> 0x0D)"
      then have "?r = of_char LF \<or> ?r = of_char CR" by auto
      then have "hd p = LF \<or> hd p = CR"
        using DecodeRune_first_byte [OF False, of LF] DecodeRune_first_byte [OF False, of CR]
        by auto
      with hd "1.prems" show False by (auto simp: eol_free_def)
    qed
    moreover have "eol_free (drop ?n p)"
      using "1.prems" set_drop_subset [of ?n p] by (auto simp: eol_free_def)
    ultimately show ?thesis
      using "1.IH" [OF False] False
      by (simp add: range_string_nonempty [of p])
  qed
qed


lemma escapeComment_loop_plain:
  "\<forall>r \<in> set rs. r \<noteq> 0x0A \<and> r \<noteq> 0x0D \<Longrightarrow> lst \<noteq> 0x0A \<Longrightarrow> lst \<noteq> 0x0D
   \<Longrightarrow> escapeComment_loop ascii lst rs = concat (map (comment_rune ascii) rs)"
  by (induction rs arbitrary: lst) simp_all

lemma isCommentPrefix_first_byte:
  assumes "l \<noteq> []"
  shows "isCommentPrefix (fst (DecodeRune l)) \<longleftrightarrow> hd l = CHR ''#'' \<or> hd l = CHR ''!''"
proof
  assume "isCommentPrefix (fst (DecodeRune l))"
  then have "fst (DecodeRune l) = of_char CHR ''#'' \<or> fst (DecodeRune l) = of_char CHR ''!''"
    by (auto simp: isCommentPrefix_def)
  then show "hd l = CHR ''#'' \<or> hd l = CHR ''!''"
    using DecodeRune_first_byte [OF assms, of "CHR ''#''"]
      DecodeRune_first_byte [OF assms, of "CHR ''!''"] by auto
next
  assume "hd l = CHR ''#'' \<or> hd l = CHR ''!''"
  with assms show "isCommentPrefix (fst (DecodeRune l))"
    by (cases l) (auto simp: DecodeRune_ascii isCommentPrefix_def)
qed

lemma escapeComment_line:
  assumes "eol_free l" and "l \<noteq> []"
  shows "escapeComment l ascii
    = (if hd l = CHR ''#'' \<or> hd l = CHR ''!'' then [] else ''#'')
      @ concat (map (comment_rune ascii) (range_string l))"
proof -
  let ?r = "fst (DecodeRune l)" and ?rs = "range_string (drop (snd (DecodeRune l)) l)"
  have rs: "range_string l = ?r # ?rs"
    using assms(2) by (rule range_string_nonempty)
  from range_string_no_eol [OF assms(1)] rs
  have r: "?r \<noteq> 0x0A" "?r \<noteq> 0x0D" and n: "\<forall>r \<in> set ?rs. r \<noteq> 0x0A \<and> r \<noteq> 0x0D"
    by auto
  have "escapeComment l ascii
      = (if \<not> isCommentPrefix ?r then ''#'' else []) @ comment_rune ascii ?r
        @ escapeComment_loop ascii ?r ?rs"
    using r by (simp add: escapeComment_def rs)
  also have "escapeComment_loop ascii ?r ?rs = concat (map (comment_rune ascii) ?rs)"
    using n r by (rule escapeComment_loop_plain)
  finally show ?thesis
    using isCommentPrefix_first_byte [OF assms(2)] by (simp add: rs)
qed

text \<open>
  Neither \<open>utf8.EncodeRune\<close> nor \<open>escapeRune\<close> writes an end-of-line byte for a rune
  that is not one.
\<close>

lemma eol_free_simps:
  "eol_free []"
  "eol_free (x # l) \<longleftrightarrow> x \<noteq> LF \<and> x \<noteq> CR \<and> eol_free l"
  "eol_free (l @ l') \<longleftrightarrow> eol_free l \<and> eol_free l'"
  "eol_free (concat ls) \<longleftrightarrow> (\<forall>l \<in> set ls. eol_free l)"
  by (auto simp: eol_free_def)

lemma char_of_not_eol:
  assumes "(n::int) mod 256 \<noteq> 10" and "n mod 256 \<noteq> 13"
  shows "char_of n \<noteq> LF \<and> char_of n \<noteq> CR"
proof -
  have "(of_char (char_of n) :: int) = n mod 256" by (rule of_char_of)
  moreover have "(of_char LF :: int) = 10" "(of_char CR :: int) = 13" by simp_all
  ultimately show ?thesis using assms by metis
qed

lemma byte_not_eol:
  assumes "0 \<le> (n::int)" "n < 256" "n \<noteq> 10" "n \<noteq> 13"
  shows "char_of n \<noteq> LF \<and> char_of n \<noteq> CR"
  using char_of_not_eol [of n] assms by simp

lemma div_bounds:
  fixes r :: int
  shows "0 \<le> r \<Longrightarrow> r \<le> 0x7FF \<Longrightarrow> 0 \<le> r div 64 \<and> r div 64 \<le> 31"
    and "0 \<le> r \<Longrightarrow> r \<le> 0xFFFF \<Longrightarrow> 0 \<le> r div 4096 \<and> r div 4096 \<le> 15"
    and "0 \<le> r \<Longrightarrow> r \<le> 0x10FFFF \<Longrightarrow> 0 \<le> r div 262144 \<and> r div 262144 \<le> 4"
proof -
  show "0 \<le> r \<Longrightarrow> r \<le> 0x7FF \<Longrightarrow> 0 \<le> r div 64 \<and> r div 64 \<le> 31"
    using zdiv_mono1 [of r "0x7FF" 64] by (simp add: pos_imp_zdiv_nonneg_iff)
  show "0 \<le> r \<Longrightarrow> r \<le> 0xFFFF \<Longrightarrow> 0 \<le> r div 4096 \<and> r div 4096 \<le> 15"
    using zdiv_mono1 [of r "0xFFFF" 4096] by (simp add: pos_imp_zdiv_nonneg_iff)
  show "0 \<le> r \<Longrightarrow> r \<le> 0x10FFFF \<Longrightarrow> 0 \<le> r div 262144 \<and> r div 262144 \<le> 4"
    using zdiv_mono1 [of r "0x10FFFF" 262144] by (simp add: pos_imp_zdiv_nonneg_iff)
qed

lemma mod64_bounds: "0 \<le> (x::int) mod 64 \<and> x mod 64 < 64"
  by simp

lemma EncodeRune_no_eol:
  assumes "r \<noteq> 0x0A" and "r \<noteq> 0x0D"
  shows "eol_free (EncodeRune r)"
proof -
  consider (a) "0 \<le> r" "r \<le> 0x7F"
    | (b) "\<not> (0 \<le> r \<and> r \<le> 0x7F)" "0 \<le> r" "r \<le> 0x7FF"
    | (c) "\<not> (0 \<le> r \<and> r \<le> 0x7FF)" "r < 0 \<or> 0x10FFFF < r \<or> (0xD800 \<le> r \<and> r \<le> 0xDFFF)"
    | (d) "\<not> (0 \<le> r \<and> r \<le> 0x7FF)" "\<not> (r < 0 \<or> 0x10FFFF < r \<or> (0xD800 \<le> r \<and> r \<le> 0xDFFF))" "r \<le> 0xFFFF"
    | (e) "\<not> (0 \<le> r \<and> r \<le> 0x7FF)" "\<not> (r < 0 \<or> 0x10FFFF < r \<or> (0xD800 \<le> r \<and> r \<le> 0xDFFF))" "\<not> r \<le> 0xFFFF"
    by linarith
  then show ?thesis
  proof cases
    case a
    then have "EncodeRune r = [char_of r]" by (simp add: EncodeRune_def)
    moreover have "char_of r \<noteq> LF \<and> char_of r \<noteq> CR"
      using a assms by (intro byte_not_eol) simp_all
    ultimately show ?thesis by (simp add: eol_free_simps)
  next
    case b
    then have "EncodeRune r = [char_of (0xC0 + r div 64), char_of (0x80 + r mod 64)]"
      by (simp add: EncodeRune_def)
    moreover have "char_of (0xC0 + r div 64) \<noteq> LF \<and> char_of (0xC0 + r div 64) \<noteq> CR"
      using div_bounds(1) [of r] b by (intro byte_not_eol) simp_all
    moreover have "char_of (0x80 + r mod 64) \<noteq> LF \<and> char_of (0x80 + r mod 64) \<noteq> CR"
      using mod64_bounds [of r] by (intro byte_not_eol) simp_all
    ultimately show ?thesis by (simp add: eol_free_simps)
  next
    case c
    then have "EncodeRune r = [CHR 0xEF, CHR 0xBF, CHR 0xBD]"
      by (auto simp: EncodeRune_def)
    then show ?thesis by (simp add: eol_free_simps)
  next
    case d
    then have r: "0 \<le> r" by simp
    from d have "EncodeRune r = [char_of (0xE0 + r div 4096), char_of (0x80 + (r div 64) mod 64),
              char_of (0x80 + r mod 64)]"
      by (auto simp: EncodeRune_def)
    moreover have "char_of (0xE0 + r div 4096) \<noteq> LF \<and> char_of (0xE0 + r div 4096) \<noteq> CR"
      using div_bounds(2) [of r] d r by (intro byte_not_eol) simp_all
    moreover have "char_of (0x80 + (r div 64) mod 64) \<noteq> LF \<and> char_of (0x80 + (r div 64) mod 64) \<noteq> CR"
      using mod64_bounds [of "r div 64"] by (intro byte_not_eol) simp_all
    moreover have "char_of (0x80 + r mod 64) \<noteq> LF \<and> char_of (0x80 + r mod 64) \<noteq> CR"
      using mod64_bounds [of r] by (intro byte_not_eol) simp_all
    ultimately show ?thesis by (simp add: eol_free_simps)
  next
    case e
    then have r: "0 \<le> r" "r \<le> 0x10FFFF" by simp_all
    from e have "EncodeRune r = [char_of (0xF0 + r div 262144), char_of (0x80 + (r div 4096) mod 64),
            char_of (0x80 + (r div 64) mod 64), char_of (0x80 + r mod 64)]"
      by (auto simp: EncodeRune_def)
    moreover have "char_of (0xF0 + r div 262144) \<noteq> LF \<and> char_of (0xF0 + r div 262144) \<noteq> CR"
      using div_bounds(3) [of r] r by (intro byte_not_eol) simp_all
    moreover have "char_of (0x80 + (r div 4096) mod 64) \<noteq> LF \<and> char_of (0x80 + (r div 4096) mod 64) \<noteq> CR"
      using mod64_bounds [of "r div 4096"] by (intro byte_not_eol) simp_all
    moreover have "char_of (0x80 + (r div 64) mod 64) \<noteq> LF \<and> char_of (0x80 + (r div 64) mod 64) \<noteq> CR"
      using mod64_bounds [of "r div 64"] by (intro byte_not_eol) simp_all
    moreover have "char_of (0x80 + r mod 64) \<noteq> LF \<and> char_of (0x80 + r mod 64) \<noteq> CR"
      using mod64_bounds [of r] by (intro byte_not_eol) simp_all
    ultimately show ?thesis by (simp add: eol_free_simps)
  qed
qed

lemma hex_digit_no_eol: "hex_digit r \<noteq> LF \<and> hex_digit r \<noteq> CR"
proof -
  have b: "0 \<le> 0x0f AND r" "0x0f AND r \<le> 0x0f"
    by (simp_all add: AND_upper1)
  show ?thesis
  proof (cases "0x0f AND r > 9")
    case True
    then have "hex_digit r = char_of ((0x0f AND r) + 87)" by (simp add: hex_digit_def Let_def)
    moreover have "char_of ((0x0f AND r) + 87) \<noteq> LF \<and> char_of ((0x0f AND r) + 87) \<noteq> CR"
      using b True by (intro byte_not_eol) linarith+
    ultimately show ?thesis by simp
  next
    case False
    then have "hex_digit r = char_of ((0x0f AND r) + 48)" by (simp add: hex_digit_def Let_def)
    moreover have "char_of ((0x0f AND r) + 48) \<noteq> LF \<and> char_of ((0x0f AND r) + 48) \<noteq> CR"
      using b False by (intro byte_not_eol) linarith+
    ultimately show ?thesis by simp
  qed
qed

lemma hex_digits_no_eol: "eol_free (hex_digits k r)"
  by (induction k arbitrary: r) (simp_all add: eol_free_simps hex_digit_no_eol)

lemma escapeRune1_no_eol: "eol_free (escapeRune1 r)"
  by (simp add: escapeRune1_def eol_free_simps Let_def hex_digits_no_eol)

lemma escapeRune_no_eol: "eol_free (escapeRune r)"
  by (simp add: escapeRune_def eol_free_simps escapeRune1_no_eol split: prod.splits)

lemma comment_rune_no_eol: "r \<noteq> 0x0A \<Longrightarrow> r \<noteq> 0x0D \<Longrightarrow> eol_free (comment_rune ascii r)"
  by (simp add: comment_rune_def Let_def escapeRune_no_eol EncodeRune_no_eol)

lemma escapeComment_line_no_eol:
  assumes "eol_free l"
  shows "eol_free (concat (map (comment_rune ascii) (range_string l)))"
proof -
  have "eol_free (comment_rune ascii r)" if "r \<in> set (range_string l)" for r
    using range_string_no_eol [OF assms] that by (intro comment_rune_no_eol) auto
  then show ?thesis by (simp add: eol_free_simps)
qed

section \<open>Properties of unescape on keys and values\<close>

text \<open>
  The runes of ASCII bytes: a byte is a separator exactly when \<open>isSpace\<close> or
  \<open>isDelimiter\<close> holds of its rune, it is written back by \<open>WriteRune\<close> as itself, and
  \<open>unescapeRune\<close> reads a backslash and a byte other than \<open>t\<close>, \<open>n\<close>, \<open>f\<close>,
  \<open>r\<close> and \<open>u\<close> as that byte.
\<close>

lemma rune_of_byte_eq: "int (of_char c) = of_char d \<longleftrightarrow> c = d"
proof -
  have "int (of_char c) = (of_char c :: int)" by (simp add: of_nat_of_char)
  then show ?thesis by (simp only: of_char_eq_iff)
qed

lemma rune_of_byte_sep:
  "isSpace (int (of_char c)) \<or> isDelimiter (int (of_char c)) \<longleftrightarrow> is_sep_byte c"
proof -
  have "isSpace (int (of_char c)) \<or> isDelimiter (int (of_char c)) \<longleftrightarrow>
      int (of_char c) = of_char TAB \<or> int (of_char c) = of_char FF
      \<or> int (of_char c) = of_char CHR '' '' \<or> int (of_char c) = of_char CHR ''=''
      \<or> int (of_char c) = of_char CHR '':''"
    by (simp add: isSpace_def isDelimiter_def)
  then show ?thesis unfolding rune_of_byte_eq by (auto simp: is_sep_byte_def)
qed

lemma sep_ascii: "is_sep_byte c \<Longrightarrow> ascii_byte c \<and> c \<noteq> BS"
  by (auto simp: is_sep_byte_def ascii_byte_def)

lemma EncodeRune_ascii_byte: "ascii_byte c \<Longrightarrow> EncodeRune (int (of_char c)) = [c]"
proof -
  assume "ascii_byte c"
  then have "int (of_char c) \<le> 0x7F" by (simp add: ascii_byte_def)
  moreover have "char_of (int (of_char c)) = c" by (simp add: of_nat_of_char)
  ultimately show ?thesis by (simp add: EncodeRune_def)
qed

lemma unescapeRune_plain: "c \<noteq> BS \<Longrightarrow> unescapeRune (c # rest) = (RuneError, 0)"
  by (subst unescapeRune.simps) simp

lemma unescapeRune_literal:
  assumes "literal_escape c"
  shows "unescapeRune (BS # c # rest) = (int (of_char c), 2)"
proof -
  from assms have d: "DecodeRune (drop 1 (BS # c # rest)) = (int (of_char c), 1)"
    by (simp add: literal_escape_def ascii_byte_def DecodeRune_ascii)
  have "int (of_char c) \<noteq> of_char CHR ''t''" "int (of_char c) \<noteq> of_char CHR ''n''"
    "int (of_char c) \<noteq> of_char CHR ''f''" "int (of_char c) \<noteq> of_char CHR ''r''"
    "int (of_char c) \<noteq> of_char CHR ''u''"
    using assms unfolding rune_of_byte_eq by (simp_all add: literal_escape_def)
  then have n: "int (of_char c) \<noteq> 0x74" "int (of_char c) \<noteq> 0x6E" "int (of_char c) \<noteq> 0x66"
    "int (of_char c) \<noteq> 0x72" "int (of_char c) \<noteq> 0x75"
    by simp_all
  show ?thesis
    apply (subst unescapeRune.simps)
    apply (simp only: d prod.case)
    using n apply simp
    done
qed

text \<open>
  One iteration of the main loop of \<open>unescape\<close> on one item, and the iterations on a
  list of items: the bytes the items stand for are appended to the builder and the
  count grows by the length of their text.
\<close>

lemma unescape_loop_plain:
  assumes "ascii_byte c" and "c \<noteq> BS" and "\<not> (split \<and> is_sep_byte c)"
  shows "unescape_loop (c # rest) split b n = unescape_loop rest split (b @ [c]) (n + 1)"
proof -
  have d: "DecodeRune (c # rest) = (int (of_char c), 1)"
    using assms(1) by (simp add: ascii_byte_def DecodeRune_ascii)
  have s: "(split \<and> (isSpace (int (of_char c)) \<or> isDelimiter (int (of_char c)))) = False"
    using assms(3) rune_of_byte_sep [of c] by blast
  show ?thesis
    apply (subst unescape_loop.simps)
    apply (simp only: unescapeRune_plain [OF assms(2)] d prod.case s if_False)
    apply (simp add: slice_from_def EncodeRune_ascii_byte [OF assms(1)])
    done
qed

lemma unescape_loop_literal:
  assumes "literal_escape c"
  shows "unescape_loop (BS # c # rest) split b n = unescape_loop rest split (b @ [c]) (n + 2)"
proof -
  from assms have a: "ascii_byte c" by (simp add: literal_escape_def)
  show ?thesis
    apply (subst unescape_loop.simps)
    apply (simp only: unescapeRune_literal [OF assms] prod.case)
    apply (simp add: slice_from_def EncodeRune_ascii_byte [OF a])
    done
qed


lemma unescape_loop_items:
  assumes "list_all value_item its" and "split \<Longrightarrow> list_all key_item its"
  shows "unescape_loop (written its @ p) split b n
       = unescape_loop p split (b @ read_back its) (n + length (written its))"
  using assms
proof (induction its arbitrary: b n)
  case Nil
  show ?case by simp
next
  case (Cons i its)
  from Cons.prems have v: "list_all value_item its" and k: "split \<Longrightarrow> list_all key_item its"
    by simp_all
  show ?case
  proof (cases i)
    case (Plain c)
    from Cons.prems Plain have a: "ascii_byte c" and nb: "c \<noteq> BS" and ns: "\<not> (split \<and> is_sep_byte c)"
      by auto
    have "unescape_loop (written (i # its) @ p) split b n
        = unescape_loop (written its @ p) split (b @ [c]) (n + 1)"
      using unescape_loop_plain [OF a nb ns] Plain by simp
    also have "\<dots> = unescape_loop p split ((b @ [c]) @ read_back its) ((n + 1) + length (written its))"
      by (rule Cons.IH [OF v k])
    finally show ?thesis using Plain by simp
  next
    case (Escaped c)
    from Cons.prems Escaped have l: "literal_escape c" by simp
    have "unescape_loop (written (i # its) @ p) split b n
        = unescape_loop (written its @ p) split (b @ [c]) (n + 2)"
      using unescape_loop_literal [OF l] Escaped by simp
    also have "\<dots> = unescape_loop p split ((b @ [c]) @ read_back its) ((n + 2) + length (written its))"
      by (rule Cons.IH [OF v k])
    finally show ?thesis using Escaped by simp
  qed
qed

text \<open>
  The inner loop of \<open>unescape\<close> on a run of separators followed by a byte that is not
  one: it consumes the whole run and returns, and so does \<open>unescape\<close> when it meets
  the first separator with \<open>split\<close> set.
\<close>

lemma DecodeRune_sep_first:
  assumes "p \<noteq> []" and "isSpace (fst (DecodeRune p)) \<or> isDelimiter (fst (DecodeRune p))"
  shows "is_sep_byte (hd p)"
proof -
  from assms(2) consider "fst (DecodeRune p) = of_char TAB" | "fst (DecodeRune p) = of_char FF"
    | "fst (DecodeRune p) = of_char CHR '' ''" | "fst (DecodeRune p) = of_char CHR ''=''"
    | "fst (DecodeRune p) = of_char CHR '':''"
    by (auto simp: isSpace_def isDelimiter_def)
  then show ?thesis
  proof cases
    case 1
    from DecodeRune_first_byte [OF assms(1) 1] show ?thesis by (simp add: is_sep_byte_def)
  next
    case 2
    from DecodeRune_first_byte [OF assms(1) 2] show ?thesis by (simp add: is_sep_byte_def)
  next
    case 3
    from DecodeRune_first_byte [OF assms(1) 3] show ?thesis by (simp add: is_sep_byte_def)
  next
    case 4
    from DecodeRune_first_byte [OF assms(1) 4] show ?thesis by (simp add: is_sep_byte_def)
  next
    case 5
    from DecodeRune_first_byte [OF assms(1) 5] show ?thesis by (simp add: is_sep_byte_def)
  qed
qed

lemma skip_loop_run:
  assumes "list_all is_sep_byte sep" and "rest \<noteq> []" and "\<not> is_sep_byte (hd rest)"
  shows "skip_loop (sep @ rest) r sz n = Returned (n + length sep)"
  using assms(1)
proof (induction sep arbitrary: r sz n)
  case Nil
  from DecodeRune_sep_first [OF assms(2)] assms(3)
  have "\<not> (isSpace (fst (DecodeRune rest)) \<or> isDelimiter (fst (DecodeRune rest)))" by blast
  with assms(2) show ?case
    by (subst skip_loop.simps) (simp add: split_beta)
next
  case (Cons c sep)
  then have c: "is_sep_byte c" and s: "list_all is_sep_byte sep" by simp_all
  from sep_ascii [OF c] have d: "DecodeRune (c # sep @ rest) = (int (of_char c), 1)"
    by (simp add: ascii_byte_def DecodeRune_ascii)
  from c have t: "isSpace (int (of_char c)) \<or> isDelimiter (int (of_char c))"
    by (simp only: rune_of_byte_sep)
  have "skip_loop ((c # sep) @ rest) r sz n = skip_loop (sep @ rest) (int (of_char c)) 1 (n + 1)"
    apply (subst skip_loop.simps)
    apply (simp only: append_Cons d prod.case)
    using t apply simp
    done
  also have "\<dots> = Returned ((n + 1) + length sep)" by (rule Cons.IH [OF s])
  finally show ?case by simp
qed

lemma unescape_loop_separator:
  assumes "sep \<noteq> []" and "list_all is_sep_byte sep" and "rest \<noteq> []" and "\<not> is_sep_byte (hd rest)"
  shows "unescape_loop (sep @ rest) True b n = Inr (b, n + length sep)"
proof -
  from assms(1) obtain c sep' where sep: "sep = c # sep'" by (cases sep) auto
  with assms(2) have c: "is_sep_byte c" and s: "list_all is_sep_byte sep'" by simp_all
  from sep_ascii [OF c] have nb: "c \<noteq> BS" and d: "DecodeRune (c # sep' @ rest) = (int (of_char c), 1)"
    by (simp_all add: ascii_byte_def DecodeRune_ascii)
  from c have t: "isSpace (int (of_char c)) \<or> isDelimiter (int (of_char c))"
    by (simp only: rune_of_byte_sep)
  have k: "skip_loop (sep' @ rest) (int (of_char c)) 1 (n + 1) = Returned ((n + 1) + length sep')"
    by (rule skip_loop_run [OF s assms(3,4)])
  show ?thesis
    unfolding sep
    apply (subst unescape_loop.simps)
    apply (simp only: append_Cons unescapeRune_plain [OF nb] d prod.case)
    using t k apply simp
    done
qed

text \<open>
  \<open>unescape\<close> on a key followed by a separator run and more text, and on a value;
  and \<open>Load\<close> on a single line made of a key, a separator run and a value.
\<close>

lemma unescape_loop_Nil: "unescape_loop [] split b n = Inr (b, n)"
  by (subst unescape_loop.simps) simp

lemma unescape_key:
  assumes "list_all key_item ks" and "sep \<noteq> []" and "list_all is_sep_byte sep"
    and "rest \<noteq> []" and "\<not> is_sep_byte (hd rest)"
  shows "unescape (written ks @ sep @ rest) True = Inr (read_back ks, length (written ks) + length sep)"
proof -
  have "key_item i \<Longrightarrow> value_item i" for i by (cases i) simp_all
  with assms(1) have v: "list_all value_item ks" by (auto simp: list_all_iff)
  have "unescape_loop (written ks @ sep @ rest) True [] 0
      = unescape_loop (sep @ rest) True ([] @ read_back ks) (0 + length (written ks))"
    by (rule unescape_loop_items [OF v assms(1)])
  also have "\<dots> = Inr ([] @ read_back ks, (0 + length (written ks)) + length sep)"
    by (rule unescape_loop_separator [OF assms(2-5)])
  finally show ?thesis by (simp add: unescape_def)
qed

lemma unescape_value:
  assumes "list_all value_item vs"
  shows "unescape (written vs) False = Inr (read_back vs, length (written vs))"
proof -
  have "unescape_loop (written vs @ []) False [] 0
      = unescape_loop [] False ([] @ read_back vs) (0 + length (written vs))"
    by (rule unescape_loop_items [OF assms]) simp
  then show ?thesis by (simp add: unescape_def unescape_loop_Nil)
qed

lemma written_nonempty: "its \<noteq> [] \<Longrightarrow> written its \<noteq> []"
  by (cases its rule: written.cases) simp_all

lemma key_item_first_not_space:
  assumes "list_all key_item ks" and "ks \<noteq> []"
  shows "\<not> is_space_byte (hd (written ks))"
proof (cases ks rule: written.cases)
  case 1
  with assms(2) show ?thesis by simp
next
  case (2 c its)
  with assms(1) have "\<not> is_sep_byte c" by simp
  with 2 show ?thesis by (auto simp: is_sep_byte_def is_space_byte_def)
next
  case (3 c its)
  then show ?thesis by (simp add: is_space_byte_def)
qed

lemma LoadString_key_value_line:
  assumes k: "list_all key_item ks" and kn: "ks \<noteq> []"
    and nc: "hd (written ks) \<noteq> CHR ''#''" "hd (written ks) \<noteq> CHR ''!''"
    and s: "sep \<noteq> []" "list_all is_sep_byte sep"
    and v: "list_all value_item vs" and vn: "vs \<noteq> []" and vs: "\<not> is_sep_byte (hd (written vs))"
    and e: "eol_free (written ks @ sep @ written vs)"
  shows "LoadString tbl (written ks @ sep @ written vs)
       = Inr (tbl(read_back ks \<mapsto> read_back vs), 1, None)"
proof -
  let ?line = "written ks @ sep @ written vs"
  from written_nonempty [OF kn] have wk: "written ks \<noteq> []" .
  from written_nonempty [OF vn] have wv: "written vs \<noteq> []" .
  from wk have h: "hd ?line = hd (written ks)" by simp
  from wk have ne: "?line \<noteq> []" by simp
  have sp: "\<not> is_space_byte (hd ?line)"
    unfolding h by (rule key_item_first_not_space [OF k kn])
  have bytes: "loadBytes EOF ?line = (?line, Some EOF, [])"
    by (rule loadBytes_single_line [OF e ne sp])
  have key: "unescape ?line True = Inr (read_back ks, length (written ks) + length sep)"
    by (rule unescape_key [OF k s wv vs])
  have val: "unescape (written vs) False = Inr (read_back vs, length (written vs))"
    by (rule unescape_value [OF v])
  have z: "?line ! 0 = hd (written ks)" using ne h by (simp add: hd_conv_nth)
  have sl: "slice_from ?line (length (written ks) + length sep) = Inr (written vs)"
    by (simp add: slice_from_def)
  have "load_line ?line tbl 0 = Inr (tbl(read_back ks \<mapsto> read_back vs), 1)"
    unfolding load_line_def z key using ne nc by (simp add: sl val)
  with bytes show ?thesis
    unfolding LoadString_def Load_def by (subst Load_loop.simps) simp
qed

section \<open>Properties of the option parser\<close>

text \<open>
  One call of \<open>Option\<close> on a struct whose \<open>done\<close> is false does what \<open>Next\<close> does on
  the same state, and sets \<open>done\<close> exactly when the result is \<open>EndOption\<close>.
\<close>

lemma of_char_int_ge0: "0 \<le> (of_char b :: int)"
proof -
  have "(of_char b :: int) mod 256 = of_char b" by (rule of_char_mod_256)
  moreover have "0 \<le> (of_char b :: int) mod 256" by (rule pos_mod_sign) simp
  ultimately show ?thesis by simp
qed

lemma of_char_not_End: "(of_char b :: int) \<noteq> - 1"
  using of_char_int_ge0 [of b] by simp

lemma same_skip: "same_state dp p \<Longrightarrow> same_state (skip_optarg dp) (skip_optarg p)"
  by (simp add: same_state_def skip_optarg_def)

lemma pdone_skip: "pdone (skip_optarg dp) = pdone dp"
  by (simp add: skip_optarg_def)

lemma same_take:
  "same_state dp p \<Longrightarrow>
     (case take_byte p of
        Inl e \<Rightarrow> take_byte dp = Inl e
      | Inr (b, p') \<Rightarrow> \<exists>dp'. take_byte dp = Inr (b, dp') \<and> same_state dp' p' \<and> pdone dp' = pdone dp)"
  by (simp add: same_state_def take_byte_def)

lemma same_lookup:
  "same_state dp p \<Longrightarrow>
     fst (lookup_option b dp) = fst (lookup_option b p)
     \<and> same_state (snd (lookup_option b dp)) (snd (lookup_option b p))
     \<and> pdone (snd (lookup_option b dp)) = pdone dp
     \<and> fst (fst (lookup_option b p)) \<noteq> EndOption"
  by (simp add: same_state_def lookup_option_def Let_def of_char_not_End)

lemma same_read:
  assumes "same_state dp p"
  shows "case read_option p of
        Inl e \<Rightarrow> read_option dp = Inl e
      | Inr (res, p') \<Rightarrow> \<exists>dp'. read_option dp = Inr (res, dp') \<and> same_state dp' p'
           \<and> pdone dp' = pdone dp \<and> fst res \<noteq> EndOption"
proof (cases "take_byte p")
  case (Inl e)
  with same_take [OF assms] show ?thesis by (simp add: read_option_def)
next
  case (Inr bp)
  obtain b p' where bp: "bp = (b, p')" by (cases bp)
  with Inr same_take [OF assms] obtain dp' where
    t: "take_byte dp = Inr (b, dp')" and s: "same_state dp' p'" and d: "pdone dp' = pdone dp"
    by auto
  obtain res p'' where l: "lookup_option b p' = (res, p'')" by (cases "lookup_option b p'")
  obtain res' dp'' where l': "lookup_option b dp' = (res', dp'')"
    by (cases "lookup_option b dp'")
  from same_lookup [OF s, of b] l l' d
  have "res' = res" "same_state dp'' p''" "pdone dp'' = pdone dp" "fst res \<noteq> EndOption"
    by simp_all
  with Inr bp t l l' show ?thesis by (simp add: read_option_def)
qed

lemma Option_sim:
  assumes "same_state dp p" and "\<not> pdone dp"
  shows "case Next p of
           Inl e \<Rightarrow> Option dp = Inl e
         | Inr (res, p') \<Rightarrow> \<exists>dp'. Option dp = Inr (res, dp') \<and> same_state dp' p'
               \<and> (pdone dp' \<longleftrightarrow> res = (EndOption, None))
               \<and> (pdone dp' \<longleftrightarrow> fst res = EndOption)"
proof -
  let ?p = "skip_optarg p" and ?dp = "skip_optarg dp"
  have s: "same_state ?dp ?p" using assms(1) by (rule same_skip)
  have d: "\<not> pdone ?dp" using assms(2) by (simp add: pdone_skip)
  have s1: "same_state (?dp\<lparr>optPos := 1\<rparr>) (?p\<lparr>optPos := 1\<rparr>)"
    using s by (simp add: same_state_def)
  have f: "args ?dp = args ?p" "optIndex ?dp = optIndex ?p" "optPos ?dp = optPos ?p"
    using s by (simp_all add: same_state_def)
  let ?s = "args ?p ! optIndex ?p"
  have N: "Next p =
     (if optIndex ?p \<ge> length (args ?p) then Inr ((EndOption, None), ?p)
      else if optPos ?p = 0 then
        (if length ?s \<le> 1 \<or> ?s ! 0 \<noteq> CHR ''-'' then Inr ((EndOption, None), ?p)
         else if length ?s = 2 \<and> ?s ! 1 = CHR ''-''
           then Inr ((EndOption, None), ?p\<lparr>optIndex := optIndex ?p + 1\<rparr>)
         else read_option (?p\<lparr>optPos := 1\<rparr>))
      else read_option ?p)"
    by (simp only: Next_def Let_def)
  have O: "Option dp =
     (if optIndex ?p \<ge> length (args ?p) then Inr ((EndOption, None), ?dp\<lparr>pdone := True\<rparr>)
      else if optPos ?p = 0 then
        (if length ?s \<le> 1 \<or> ?s ! 0 \<noteq> CHR ''-''
           then Inr ((EndOption, None), ?dp\<lparr>pdone := True\<rparr>)
         else if length ?s = 2 \<and> ?s ! 1 = CHR ''-''
           then Inr ((EndOption, None), ?dp\<lparr>optIndex := optIndex ?dp + 1, pdone := True\<rparr>)
         else read_option (?dp\<lparr>optPos := 1\<rparr>))
      else read_option ?dp)"
    using assms(2) by (simp only: Option_def Let_def f if_False)
  have e1: "same_state (?dp\<lparr>pdone := True\<rparr>) ?p"
    using s by (simp add: same_state_def)
  have e2: "same_state (?dp\<lparr>optIndex := optIndex ?dp + 1, pdone := True\<rparr>)
              (?p\<lparr>optIndex := optIndex ?p + 1\<rparr>)"
    using s by (simp add: same_state_def)
  consider (a) "optIndex ?p \<ge> length (args ?p)"
    | (b1) "\<not> optIndex ?p \<ge> length (args ?p)" "optPos ?p = 0"
           "length ?s \<le> 1 \<or> ?s ! 0 \<noteq> CHR ''-''"
    | (b2) "\<not> optIndex ?p \<ge> length (args ?p)" "optPos ?p = 0"
           "\<not> (length ?s \<le> 1 \<or> ?s ! 0 \<noteq> CHR ''-'')" "length ?s = 2 \<and> ?s ! 1 = CHR ''-''"
    | (b3) "\<not> optIndex ?p \<ge> length (args ?p)" "optPos ?p = 0"
           "\<not> (length ?s \<le> 1 \<or> ?s ! 0 \<noteq> CHR ''-'')" "\<not> (length ?s = 2 \<and> ?s ! 1 = CHR ''-'')"
    | (c) "\<not> optIndex ?p \<ge> length (args ?p)" "optPos ?p \<noteq> 0"
    by blast
  then show ?thesis
  proof cases
    case a
    then have "Next p = Inr ((EndOption, None), ?p)"
      and "Option dp = Inr ((EndOption, None), ?dp\<lparr>pdone := True\<rparr>)"
      by (auto simp add: N O)
    with e1 show ?thesis by simp
  next
    case b1
    then have "Next p = Inr ((EndOption, None), ?p)"
      and "Option dp = Inr ((EndOption, None), ?dp\<lparr>pdone := True\<rparr>)"
      by (auto simp add: N O)
    with e1 show ?thesis by simp
  next
    case b2
    then have "Next p = Inr ((EndOption, None), ?p\<lparr>optIndex := optIndex ?p + 1\<rparr>)"
      and "Option dp = Inr ((EndOption, None), ?dp\<lparr>optIndex := optIndex ?dp + 1, pdone := True\<rparr>)"
      by (auto simp add: N O)
    with e2 show ?thesis by simp
  next
    case b3
    then have "Next p = read_option (?p\<lparr>optPos := 1\<rparr>)"
      and "Option dp = read_option (?dp\<lparr>optPos := 1\<rparr>)"
      by (auto simp add: N O)
    with same_read [OF s1] d show ?thesis
      by (cases "read_option (?p\<lparr>optPos := 1\<rparr>)") auto
  next
    case c
    then have "Next p = read_option ?p" and "Option dp = read_option ?dp"
      by (auto simp add: N O)
    with same_read [OF s] d show ?thesis
      by (cases "read_option ?p") auto
  qed
qed

lemma Args_same: "same_state dp p \<Longrightarrow> Args dp = Args p"
  by (simp add: Args_def same_state_def)

lemma Option_calls_done:
  "pdone dp \<Longrightarrow> Option_calls k dp = Inr (replicate k ((EndOption, None), Args dp))"
  by (induction k) (simp_all add: Option_def)

lemma Option_calls_sim:
  "same_state dp p \<Longrightarrow> \<not> pdone dp \<Longrightarrow> Next_calls k p = Inr obs
   \<Longrightarrow> \<forall>ob \<in> set obs. fst ob \<noteq> (EndOption, None)
   \<Longrightarrow> Option_calls (Suc k) dp = Next_calls (Suc k) p"
proof (induction k arbitrary: dp p obs)
  case 0
  from Option_sim [OF 0(1,2)] show ?case
    by (cases "Next p") (auto simp: Args_same)
next
  case (Suc k)
  from Suc.prems(3) obtain res p' obs' where
    n: "Next p = Inr (res, p')" and c: "Next_calls k p' = Inr obs'"
    and o: "obs = (res, Args p') # obs'"
    by (auto split: sum.splits)
  from Option_sim [OF Suc.prems(1,2)] n obtain dp' where
    od: "Option dp = Inr (res, dp')" and s: "same_state dp' p'"
    and d: "pdone dp' \<longleftrightarrow> res = (EndOption, None)"
    by auto
  from Suc.prems(4) o have "res \<noteq> (EndOption, None)"
    and r: "\<forall>ob \<in> set obs'. fst ob \<noteq> (EndOption, None)"
    by auto
  with d have nd: "\<not> pdone dp'" by simp
  have "Option_calls (Suc k) dp' = Next_calls (Suc k) p'"
    using s nd c r by (rule Suc.IH)
  then have "Option_calls (Suc (Suc k)) dp = Next_calls (Suc (Suc k)) p"
    using n od Args_same [OF s]
    by (simp only: Option_calls.simps(2) [of "Suc k"] Next_calls.simps(2) [of "Suc k"]
        sum.case prod.case)
  then show ?case .
qed

lemma Option_End_done:
  assumes "Option dp = Inr ((EndOption, e), dp')"
  shows "pdone dp' \<and> e = None"
proof (cases "pdone dp")
  case True
  with assms show ?thesis by (simp add: Option_def)
next
  case False
  have s: "same_state dp (Parser.truncate dp)"
    by (simp add: same_state_def Parser.truncate_def)
  from Option_sim [OF s False] assms show ?thesis
    by (cases "Next (Parser.truncate dp)") auto
qed

section \<open>Properties of the table operations\<close>

text \<open>
  \<open>Set\<close>, \<open>Delete\<close> and \<open>Clear\<close> never assign a \<open>defaults\<close> field, so every chain
  stays what it was; they change the map object of the table at \<open>p\<close>, or give that
  table a new one.
\<close>

lemma chain_tables_cong:
  assumes "length ts = length (tables s)"
    and "\<forall>q < length ts. defaults (ts ! q) = defaults (tables s ! q)"
    and "valid_store s"
    and "case r of None \<Rightarrow> True | Some q \<Rightarrow> q < length (tables s)"
  shows "chain (s\<lparr>tables := ts, maps := ms\<rparr>) n r = chain s n r"
  using assms(4)
proof (induction n arbitrary: r)
  case 0
  show ?case by simp
next
  case (Suc n)
  show ?case
  proof (cases r)
    case None
    then show ?thesis by simp
  next
    case (Some q)
    with Suc.prems have q: "q < length (tables s)" by simp
    with assms(3) have "valid_table s (tables s ! q)"
      by (simp add: valid_store_def list_all_length)
    then have "case defaults (tables s ! q) of None \<Rightarrow> True | Some q' \<Rightarrow> q' < length (tables s)"
      by (simp add: valid_table_def)
    from Suc.IH [OF this] Some q assms(1,2) show ?thesis by simp
  qed
qed


lemma chain_valid:
  assumes "valid_store s"
  shows "(case r of None \<Rightarrow> True | Some q \<Rightarrow> q < length (tables s))
         \<Longrightarrow> q \<in> set (chain s n r) \<Longrightarrow> q < length (tables s)"
proof (induction n arbitrary: r)
  case 0
  then show ?case by simp
next
  case (Suc n)
  show ?case
  proof (cases r)
    case None
    with Suc.prems show ?thesis by simp
  next
    case (Some q')
    with Suc.prems have q': "q' < length (tables s)" by simp
    with assms have "valid_table s (tables s ! q')"
      by (simp add: valid_store_def list_all_length)
    then have v: "case defaults (tables s ! q') of None \<Rightarrow> True | Some x \<Rightarrow> x < length (tables s)"
      by (simp add: valid_table_def)
    from Suc.prems(2) Some have "q = q' \<or> q \<in> set (chain s n (defaults (tables s ! q')))"
      by simp
    with q' Suc.IH [OF v] show ?thesis by blast
  qed
qed

lemma contents_frame:
  assumes "data (tables s' ! q) = data (tables s ! q)"
    and "\<And>r. data (tables s ! q) = Some r \<Longrightarrow> maps s' ! r = maps s ! r"
  shows "contents s' q = contents s q"
  using assms by (simp add: contents_def split: option.splits)

lemma valid_data:
  "valid_store s \<Longrightarrow> q < length (tables s) \<Longrightarrow> data (tables s ! q) = Some r
   \<Longrightarrow> r < length (maps s)"
  by (auto simp: valid_store_def list_all_length valid_table_def split: option.splits)

lemma valid_defaults:
  "valid_store s \<Longrightarrow> p < length (tables s)
   \<Longrightarrow> (case defaults (tables s ! p) of None \<Rightarrow> True | Some q \<Rightarrow> q < length (tables s))"
  by (auto simp: valid_store_def list_all_length valid_table_def split: option.splits)

lemma Clear_eq:
  "Clear p s = s\<lparr>tables := (tables s)[p := (tables s ! p)\<lparr>data := Some (length (maps s))\<rparr>],
                  maps := maps s @ [Map.empty]\<rparr>"
  by (simp add: Clear_def make_map_def)

lemma Set_eq:
  "p < length (tables s) \<Longrightarrow> Set p key val s =
     (case data (tables s ! p) of
        None \<Rightarrow> s\<lparr>tables := (tables s)[p := (tables s ! p)\<lparr>data := Some (length (maps s))\<rparr>],
                  maps := maps s @ [[key \<mapsto> val]]\<rparr>
      | Some r \<Rightarrow> s\<lparr>tables := tables s, maps := (maps s)[r := (maps s ! r)(key \<mapsto> val)]\<rparr>)"
  by (simp add: Set_def make_map_def Let_def split: option.splits)

lemma Delete_eq:
  "Delete p key s =
     (case data (tables s ! p) of
        None \<Rightarrow> s
      | Some r \<Rightarrow> s\<lparr>tables := tables s, maps := (maps s)[r := (maps s ! r)(key := None)]\<rparr>)"
  by (simp add: Delete_def split: option.splits)

lemma frame_Clear:
  assumes "valid_store s" "p < length (tables s)" "q < length (tables s)" "q \<noteq> p"
  shows "contents (Clear p s) q = contents s q"
proof (rule contents_frame)
  show "data (tables (Clear p s) ! q) = data (tables s ! q)"
    using assms by (simp add: Clear_eq)
  fix r assume "data (tables s ! q) = Some r"
  with assms have "r < length (maps s)" by (simp add: valid_data)
  then show "maps (Clear p s) ! r = maps s ! r" by (simp add: Clear_eq nth_append)
qed

lemma frame_Set:
  assumes "valid_store s" "p < length (tables s)" "q < length (tables s)" "q \<noteq> p"
    "own_map s p q"
  shows "contents (Set p key val s) q = contents s q"
proof (rule contents_frame)
  show "data (tables (Set p key val s) ! q) = data (tables s ! q)"
    using assms by (simp add: Set_eq split: option.splits)
  fix r assume r: "data (tables s ! q) = Some r"
  with assms have "r < length (maps s)" by (simp add: valid_data)
  with r assms(2,5) show "maps (Set p key val s) ! r = maps s ! r"
    by (auto simp: Set_eq nth_append own_map_def split: option.splits)
qed

lemma frame_Delete:
  assumes "own_map s p q"
  shows "contents (Delete p key s) q = contents s q"
proof (rule contents_frame)
  show "data (tables (Delete p key s) ! q) = data (tables s ! q)"
    by (simp add: Delete_eq split: option.splits)
  fix r assume r: "data (tables s ! q) = Some r"
  with assms show "maps (Delete p key s) ! r = maps s ! r"
    by (auto simp: Delete_eq own_map_def split: option.splits)
qed

lemma defaults_Set: "p < length (tables s) \<Longrightarrow> q < length (tables s) \<Longrightarrow>
    defaults (tables (Set p key val s) ! q) = defaults (tables s ! q)"
  by (cases "q = p") (simp_all add: Set_eq split: option.splits)

lemma defaults_Clear: "q < length (tables s) \<Longrightarrow>
    defaults (tables (Clear p s) ! q) = defaults (tables s ! q)"
  by (cases "q = p") (simp_all add: Clear_eq)

lemma defaults_Delete: "defaults (tables (Delete p key s) ! q) = defaults (tables s ! q)"
  by (simp add: Delete_eq split: option.splits)

lemma defaults_update_data:
  "q < length ts \<Longrightarrow> defaults (ts[p := (ts ! p)\<lparr>data := x\<rparr>] ! q) = defaults (ts ! q)"
  by (cases "q = p") simp_all

lemma chain_Set:
  assumes "valid_store s" "p < length (tables s)"
    and "case r of None \<Rightarrow> True | Some q \<Rightarrow> q < length (tables s)"
  shows "chain (Set p key val s) n r = chain s n r"
proof (cases "data (tables s ! p)")
  case None
  with assms(2) have "Set p key val s =
      s\<lparr>tables := (tables s)[p := (tables s ! p)\<lparr>data := Some (length (maps s))\<rparr>],
        maps := maps s @ [[key \<mapsto> val]]\<rparr>"
    by (simp add: Set_eq)
  moreover have "\<forall>q < length ((tables s)[p := (tables s ! p)\<lparr>data := Some (length (maps s))\<rparr>]).
      defaults ((tables s)[p := (tables s ! p)\<lparr>data := Some (length (maps s))\<rparr>] ! q)
        = defaults (tables s ! q)"
    by (simp add: defaults_update_data)
  ultimately show ?thesis using chain_tables_cong [OF _ _ assms(1,3)] by simp
next
  case (Some m)
  with assms(2) have "Set p key val s =
      s\<lparr>tables := tables s, maps := (maps s)[m := (maps s ! m)(key \<mapsto> val)]\<rparr>"
    by (simp add: Set_eq)
  then show ?thesis using chain_tables_cong [OF _ _ assms(1,3), of "tables s"] by simp
qed

lemma chain_Clear:
  assumes "valid_store s"
    and "case r of None \<Rightarrow> True | Some q \<Rightarrow> q < length (tables s)"
  shows "chain (Clear p s) n r = chain s n r"
proof -
  have "\<forall>q < length ((tables s)[p := (tables s ! p)\<lparr>data := Some (length (maps s))\<rparr>]).
      defaults ((tables s)[p := (tables s ! p)\<lparr>data := Some (length (maps s))\<rparr>] ! q)
        = defaults (tables s ! q)"
    by (simp add: defaults_update_data)
  then show ?thesis using chain_tables_cong [OF _ _ assms] by (simp add: Clear_eq)
qed

lemma chain_Delete:
  assumes "valid_store s"
    and "case r of None \<Rightarrow> True | Some q \<Rightarrow> q < length (tables s)"
  shows "chain (Delete p key s) n r = chain s n r"
proof (cases "data (tables s ! p)")
  case None
  then show ?thesis by (simp add: Delete_eq)
next
  case (Some m)
  then have "Delete p key s =
      s\<lparr>tables := tables s, maps := (maps s)[m := (maps s ! m)(key := None)]\<rparr>"
    by (simp add: Delete_eq)
  then show ?thesis using chain_tables_cong [OF _ _ assms, of "tables s"] by simp
qed


lemma Set_Delete_Clear_local:
  assumes "valid_store s" and "p < length (tables s)"
  shows "contents (Set p key val s) p = (contents s p)(key \<mapsto> val)"
    and "contents (Delete p key s) p = (contents s p)(key := None)"
    and "contents (Clear p s) p = Map.empty"
proof -
  show "contents (Set p key val s) p = (contents s p)(key \<mapsto> val)"
  proof (cases "data (tables s ! p)")
    case None
    with assms(2) show ?thesis by (simp add: Set_eq contents_def)
  next
    case (Some r)
    with assms have "r < length (maps s)" by (simp add: valid_data)
    with Some assms(2) show ?thesis by (simp add: Set_eq contents_def)
  qed
  show "contents (Delete p key s) p = (contents s p)(key := None)"
  proof (cases "data (tables s ! p)")
    case None
    then show ?thesis by (simp add: Delete_eq contents_def)
  next
    case (Some r)
    with assms have "r < length (maps s)" by (simp add: valid_data)
    with Some show ?thesis by (simp add: Delete_eq contents_def)
  qed
  show "contents (Clear p s) p = Map.empty"
    using assms(2) by (simp add: Clear_eq contents_def)
qed

section \<open>The claims\<close>

text \<open>
  Claim C1: for every input, loading is total and never fails on malformed input; in
  particular a line whose key is followed only by separator characters, such as
  \<open>key=\<close>, loads normally and yields that key with the empty value.

  \<open>Load\<close> has no error of its own to return (lemma \<open>Load_loop_error\<close>), but it is
  not total. For the line \<open>key=\<close> the inner loop of \<open>unescape\<close> runs
  out of bytes, control falls through to \<open>p = p[size:]\<close> with \<open>p\<close> empty, and the
  program panics with a slice bounds error, whatever the table held before and however
  the reader ends.
\<close>

theorem Load_key_without_value_panics:
  "Load fin m ''key='' = Inl SliceBounds"
  by (simp add: Load_def Load_loop.simps loadBytes_def loadBytes_loop.simps
      is_space_byte_def load_line_def unescape_def unescape_loop.simps
      unescapeRune.simps DecodeRune_def isSpace_def isDelimiter_def slice_from_def
      skip_loop.simps EncodeRune_def after_eol_def)

text \<open>
  Claim C2: for every table whose keys and values are ASCII, loading what \<open>Store\<close>
  wrote (in either ascii mode) gives back exactly the original pairs.

  The code does not do this. \<open>escape\<close> writes a backslash of a key or value as it is,
  and \<open>unescape\<close> then reads it as the start of an escape: the pair with key \<open>a\b\<close>
  and value \<open>v\<close> is stored as \<open>a\b=v\<close> and loaded as the key \<open>ab\<close>. A pair with an
  empty value is stored as \<open>k=\<close>, on which \<open>Load\<close> panics (the defect of claim C1).
\<close>

theorem Store_Load_backslash_and_empty_value:
  "fst (Store [(''a'' @ BS # ''b'', ''v'')] ascii) = ''a'' @ BS # ''b=v'' @ [LF]
   \<and> LoadString Map.empty (fst (Store [(''a'' @ BS # ''b'', ''v'')] ascii))
       = Inr ([''ab'' \<mapsto> ''v''], 1, None)
   \<and> [''ab'' \<mapsto> ''v''] \<noteq> [''a'' @ BS # ''b'' \<mapsto> ''v'']
   \<and> fst (Store [(''k'', [])] ascii) = ''k='' @ [LF]
   \<and> LoadString Map.empty (fst (Store [(''k'', [])] ascii)) = Inl SliceBounds"
proof -
  have "fst (Store [(''a'' @ BS # ''b'', ''v'')] True) = ''a'' @ BS # ''b=v'' @ [LF]"
    and "fst (Store [(''a'' @ BS # ''b'', ''v'')] False) = ''a'' @ BS # ''b=v'' @ [LF]"
    by code_simp+
  then have s1: "fst (Store [(''a'' @ BS # ''b'', ''v'')] ascii) = ''a'' @ BS # ''b=v'' @ [LF]"
    by (cases ascii) simp_all
  have "fst (Store [(''k'', [])] True) = ''k='' @ [LF]"
    and "fst (Store [(''k'', [])] False) = ''k='' @ [LF]"
    by code_simp+
  then have s2: "fst (Store [(''k'', [])] ascii) = ''k='' @ [LF]"
    by (cases ascii) simp_all
  have b1: "loadBytes EOF (''a'' @ BS # ''b=v'' @ [LF]) = (''a'' @ BS # ''b=v'', None, [])"
    by code_simp
  have b2: "loadBytes EOF [] = ([], Some EOF, [])"
    by code_simp
  have k1: "unescape (''a'' @ BS # ''b=v'') True = Inr (''ab'', 4)"
    by code_simp
  have v1: "unescape (drop 4 (''a'' @ BS # ''b=v'')) False = Inr (''v'', 1)"
    by code_simp
  have l1: "LoadString Map.empty (''a'' @ BS # ''b=v'' @ [LF]) = Inr ([''ab'' \<mapsto> ''v''], 1, None)"
    using b1 [simplified] b2 k1 [simplified] v1 [simplified]
    by (simp add: LoadString_def Load_def Load_loop.simps load_line_def slice_from_def)
  have b3: "loadBytes EOF (''k='' @ [LF]) = (''k='', None, [])"
    by code_simp
  have k3: "unescape ''k='' True = Inl SliceBounds"
    by code_simp
  have l3: "LoadString Map.empty (''k='' @ [LF]) = Inl SliceBounds"
    using b3 [simplified] k3
    by (simp add: LoadString_def Load_def Load_loop.simps load_line_def)
  have ne: "[''ab'' \<mapsto> ''v''] \<noteq> [''a'' @ BS # ''b'' \<mapsto> ''v'']"
  proof
    assume "[''ab'' \<mapsto> ''v''] = [''a'' @ BS # ''b'' \<mapsto> ''v'']"
    then have "[''ab'' \<mapsto> ''v''] ''ab'' = [''a'' @ BS # ''b'' \<mapsto> ''v''] ''ab''"
      by simp
    then show False by simp
  qed
  show ?thesis using s1 s2 l1 l3 ne by simp
qed

text \<open>
  Claim C3: for every byte sequence that starts with a backslash and \<open>u\<close> followed by
  fewer than four hexadecimal digits, \<open>unescapeRune\<close> returns the replacement rune and
  reports six bytes consumed.

  The code reports the index of the first byte that is not a hexadecimal digit instead:
  on \<open>\u12xy\<close> it returns the replacement rune and 4, not 6.
\<close>

theorem unescapeRune_short_hex_consumes_four:
  "unescapeRune (BS # ''u12xy'') = (RuneError, 4)"
  by code_simp

text \<open>
  Claim C4: when a \<open>\uXXXX\<close> holding a surrogate half is immediately followed by a
  second \<open>\uXXXX\<close> that completes a valid pair, \<open>unescapeRune\<close> returns the combined
  rune above \<open>U+FFFF\<close> and consumes twelve bytes; in every other case it returns the
  replacement rune and consumes six bytes.

  The code never pairs: the recursive call on the second sequence treats the low
  surrogate as the start of a pair of its own and returns the replacement rune, so the
  valid pair for \<open>U+1F600\<close> decodes to the replacement rune with six bytes consumed,
  and no input at all makes \<open>unescapeRune\<close> report twelve bytes. The other half of
  the claim holds: a surrogate always gives the replacement rune and six bytes (lemma
  \<open>unescapeRune_surrogate_never_paired\<close>).
\<close>

theorem unescapeRune_valid_pair_not_combined:
  "unescapeRune (BS # ''ud83d'' @ BS # ''ude00'') = (RuneError, 6)
   \<and> (\<forall>p. snd (unescapeRune p) \<noteq> 12)"
proof
  show "unescapeRune (BS # ''ud83d'' @ BS # ''ude00'') = (RuneError, 6)"
    by code_simp
  show "\<forall>p. snd (unescapeRune p) \<noteq> 12"
    by (simp add: unescapeRune_never_twelve)
qed

text \<open>
  Claim C5: for every comments string, every end-of-line sequence of the text
  (\<open>\n\<close>, \<open>\r\<close> or \<open>\r\n\<close>) is normalized to a single \<open>\n\<close> in the output of
  \<open>escapeComment\<close>, and each resulting line whose first character is not \<open>#\<close> or
  \<open>!\<close> is prefixed with \<open>#\<close>.

  The code copies the end-of-line bytes as they are. As amended: the empty text gives
  the empty output; at every end-of-line byte \<open>e\<close> of the text the output is the
  output for what precedes, the byte \<open>e\<close> itself, and the output for what follows;
  and a line \<open>l\<close> that is not empty is written as its escaped runes, which contain no
  end-of-line byte, preceded by \<open>#\<close> unless its first byte is \<open>#\<close> or \<open>!\<close>.
\<close>

theorem escapeComment_lines:
  "escapeComment [] ascii = []
   \<and> (e = LF \<or> e = CR
        \<longrightarrow> escapeComment (t @ e # rest) ascii
              = escapeComment t ascii @ e # escapeComment rest ascii)
   \<and> (eol_free l \<and> l \<noteq> []
        \<longrightarrow> escapeComment l ascii
              = (if hd l = CHR ''#'' \<or> hd l = CHR ''!'' then [] else ''#'')
                @ concat (map (comment_rune ascii) (range_string l))
            \<and> eol_free (concat (map (comment_rune ascii) (range_string l))))"
proof (intro conjI impI)
  show "escapeComment [] ascii = []" by (simp add: escapeComment_def)
next
  assume "e = LF \<or> e = CR"
  then show "escapeComment (t @ e # rest) ascii = escapeComment t ascii @ e # escapeComment rest ascii"
    by (rule escapeComment_eol)
next
  assume "eol_free l \<and> l \<noteq> []"
  then show "escapeComment l ascii
      = (if hd l = CHR ''#'' \<or> hd l = CHR ''!'' then [] else ''#'')
        @ concat (map (comment_rune ascii) (range_string l))"
    by (simp add: escapeComment_line)
next
  assume "eol_free l \<and> l \<noteq> []"
  then show "eol_free (concat (map (comment_rune ascii) (range_string l)))"
    by (simp add: escapeComment_line_no_eol)
qed

theorem escapeComment_lines_witness:
  "escapeComment (''a'' @ [CR] @ ''!b'' @ [LF] @ ''c'') True
     = ''#a'' @ [CR] @ ''!b'' @ [LF] @ ''#c''"
proof -
  have l1: "eol_free ''a'' \<and> ''a'' \<noteq> []" by (simp add: eol_free_def)
  have l2: "eol_free ''!b'' \<and> ''!b'' \<noteq> []" by (simp add: eol_free_def)
  have l3: "eol_free ''c'' \<and> ''c'' \<noteq> []" by (simp add: eol_free_def)
  have b1: "concat (map (comment_rune True) (range_string ''a'')) = ''a''" by code_simp
  have b2: "concat (map (comment_rune True) (range_string ''!b'')) = ''!b''" by code_simp
  have b3: "concat (map (comment_rune True) (range_string ''c'')) = ''c''" by code_simp
  have s1: "escapeComment (''a'' @ CR # (''!b'' @ LF # ''c'')) True
      = escapeComment ''a'' True @ CR # escapeComment (''!b'' @ LF # ''c'') True"
    using escapeComment_lines [of True CR "''a''" "''!b'' @ LF # ''c''"] by simp
  have s2: "escapeComment (''!b'' @ LF # ''c'') True
      = escapeComment ''!b'' True @ LF # escapeComment ''c'' True"
    using escapeComment_lines [of True LF "''!b''" "''c''"] by simp
  have e1: "escapeComment ''a'' True = ''#a''"
    using escapeComment_lines [of True _ _ _ "''a''"] l1 b1 by simp
  have e2: "escapeComment ''!b'' True = ''!b''"
    using escapeComment_lines [of True _ _ _ "''!b''"] l2 b2 by simp
  have e3: "escapeComment ''c'' True = ''#c''"
    using escapeComment_lines [of True _ _ _ "''c''"] l3 b3 by simp
  show ?thesis using s1 s2 e1 e2 e3 by simp
qed

text \<open>
  The counterexample to claim C5 as stated, which is the first case of the test
  \<open>TestSaveString\<close>: the \<open>\r\n\<close> of the comments is still \<open>\r\n\<close> in the output.
\<close>

theorem escapeComment_keeps_crlf:
  "escapeComment (''The first'' @ [CR, LF] @ ''properties entry'') False
     = ''#The first'' @ [CR, LF] @ ''#properties entry''
   \<and> escapeComment (''The first'' @ [CR, LF] @ ''properties entry'') False
     \<noteq> ''#The first'' @ [LF] @ ''#properties entry''"
  by code_simp

text \<open>
  Claim C6: for every natural line read during load that ends with an odd run of
  backslashes, the reader drops the final backslash and the end-of-line bytes, skips the
  leading white space of the next natural line and appends that line to the same
  logical line; a line ending with an even run (zero included) ends the logical line
  with the backslashes kept. In particular \<open>key value1\<close>, a space and a
  backslash, followed by a newline and the indented \<open>value2\<close>, loads to the value
  \<open>value1 value2\<close>.

  \<open>loadBytes\<close> follows this rule when the end of the line is \<open>\n\<close>, \<open>\r\n\<close> or a
  \<open>\r\<close> followed by another byte (lemma \<open>loadBytes_loop_natural_line\<close>), and the
  example loads as stated (lemma \<open>LoadString_continuation_example\<close>). It does not
  when the end of the line is a \<open>\r\<close> that is the last byte of the input: the
  \<open>ReadByte\<close> that looks for a \<open>\n\<close> after the \<open>\r\<close> fails, and \<open>loadBytes\<close>
  returns at once, before the statement \<open>b = b[:len(b)-1]\<close> that drops the backslash.
  So every natural line \<open>nl\<close> followed by such a \<open>\r\<close> is returned whole after its
  leading white space, the last backslash of an odd run included. \<open>Load\<close> on
  \<open>a=b\<close>, a backslash and that \<open>\r\<close> gives the key \<open>a\<close> the value \<open>b\<close>
  followed by the replacement character \<open>U+FFFD\<close>, which is how \<open>unescape\<close> reads a
  backslash with nothing after it; with \<open>\n\<close> or \<open>\r\n\<close> in the place of the
  \<open>\r\<close> the backslash is dropped and the value is \<open>b\<close>.
\<close>

theorem loadBytes_lone_cr_keeps_backslash:
  "(eol_free nl \<longrightarrow>
      loadBytes_loop fin b (nl @ [CR]) = (b @ dropWhile is_space_byte nl, Some fin, []))
   \<and> LoadString Map.empty (''a=b'' @ [BS, CR])
       = Inr ([''a'' \<mapsto> ''b'' @ [CHR 0xEF, CHR 0xBF, CHR 0xBD]], 1, None)
   \<and> LoadString Map.empty (''a=b'' @ [BS, LF]) = Inr ([''a'' \<mapsto> ''b''], 1, None)
   \<and> LoadString Map.empty (''a=b'' @ [BS, CR, LF]) = Inr ([''a'' \<mapsto> ''b''], 1, None)"
proof (intro conjI impI)
  assume "eol_free nl"
  then show "loadBytes_loop fin b (nl @ [CR]) = (b @ dropWhile is_space_byte nl, Some fin, [])"
    by (rule loadBytes_loop_lone_cr)
next
  have bytes: "loadBytes EOF (''a=b'' @ [BS, CR]) = (''a=b'' @ [BS], Some EOF, [])"
    by code_simp
  have key: "unescape (''a=b'' @ [BS]) True = Inr (''a'', 2)"
    by code_simp
  have val: "unescape (drop 2 (''a=b'' @ [BS])) False
      = Inr (''b'' @ [CHR 0xEF, CHR 0xBF, CHR 0xBD], 2)"
    by code_simp
  show "LoadString Map.empty (''a=b'' @ [BS, CR])
       = Inr ([''a'' \<mapsto> ''b'' @ [CHR 0xEF, CHR 0xBF, CHR 0xBD]], 1, None)"
    using bytes [simplified] key [simplified] val [simplified]
    by (simp add: LoadString_def Load_def Load_loop.simps load_line_def slice_from_def)
next
  have bytes: "loadBytes EOF (''a=b'' @ [BS, LF]) = (''a=b'', Some EOF, [])"
    by code_simp
  have key: "unescape ''a=b'' True = Inr (''a'', 2)"
    by code_simp
  have val: "unescape (drop 2 ''a=b'') False = Inr (''b'', 1)"
    by code_simp
  show "LoadString Map.empty (''a=b'' @ [BS, LF]) = Inr ([''a'' \<mapsto> ''b''], 1, None)"
    using bytes [simplified] key val [simplified]
    by (simp add: LoadString_def Load_def Load_loop.simps load_line_def slice_from_def)
next
  have bytes: "loadBytes EOF (''a=b'' @ [BS, CR, LF]) = (''a=b'', Some EOF, [])"
    by code_simp
  have key: "unescape ''a=b'' True = Inr (''a'', 2)"
    by code_simp
  have val: "unescape (drop 2 ''a=b'') False = Inr (''b'', 1)"
    by code_simp
  show "LoadString Map.empty (''a=b'' @ [BS, CR, LF]) = Inr ([''a'' \<mapsto> ''b''], 1, None)"
    using bytes [simplified] key val [simplified]
    by (simp add: LoadString_def Load_def Load_loop.simps load_line_def slice_from_def)
qed

text \<open>
  The instance of the first part at the natural line \<open>a=b\<close> plus one backslash, which
  ends with an odd run: \<open>loadBytes\<close> returns it with the backslash.
\<close>

theorem loadBytes_lone_cr_keeps_backslash_witness:
  "eol_free (''a=b'' @ [BS])
   \<and> odd (trailing_backslashes (''a=b'' @ [BS]))
   \<and> loadBytes EOF ((''a=b'' @ [BS]) @ [CR]) = (''a=b'' @ [BS], Some EOF, [])"
proof -
  have 1: "eol_free (''a=b'' @ [BS])" by (simp add: eol_free_def)
  have 2: "odd (trailing_backslashes (''a=b'' @ [BS]))" by (simp add: trailing_backslashes_def)
  have 3: "dropWhile is_space_byte (''a=b'' @ [BS]) = ''a=b'' @ [BS]"
    by (simp add: is_space_byte_def)
  have "loadBytes_loop EOF [] ((''a=b'' @ [BS]) @ [CR]) = (''a=b'' @ [BS], Some EOF, [])"
    using loadBytes_lone_cr_keeps_backslash [of "''a=b'' @ [BS]" EOF "[]"] 1 unfolding 3 by simp
  with 1 2 show ?thesis by (simp add: loadBytes_def)
qed

text \<open>
  Claim C7: loading the single line \<open>fourth\ key\ : \ fourth value\<close> yields exactly
  one pair, with the key \<open>fourth key\<close> followed by a space and the value
  \<open>fourth value\<close> preceded by a space: backslash-escaped spaces and delimiters are
  included in the key, and the first unescaped run of white space and delimiter
  characters after the key is consumed and discarded as the separator.

  The rule, for ASCII text. Let the key be written as the items \<open>ks\<close>, each a byte
  that is neither a backslash nor a separator, or a backslash and a byte that stands
  for itself (a space, a tab, a form-feed, \<open>=\<close>, \<open>:\<close> and a backslash among them),
  let \<open>sep\<close> be a run of one or more separator bytes (space, tab, form-feed, \<open>=\<close>,
  \<open>:\<close>), and let \<open>rest\<close> be more text that does not start with a separator.
  \<open>unescape\<close> with \<open>split\<close> returns the bytes the items stand for, the escaped
  separators among them, and the offset at which \<open>rest\<close> starts: the whole run is
  skipped. If moreover the key is not empty and does not start with \<open>#\<close> or \<open>!\<close>,
  the rest is a value written as the items \<open>vs\<close>, and the line has no end-of-line
  byte, then \<open>Load\<close> on that line adds to the table exactly the pair of the key and the
  value read back, counts one pair and reports no error.

  The line of the claim is the case of the key items \<open>fourth\<close>, an escaped space,
  \<open>key\<close> and an escaped space, the run made of a colon and a space, and the value
  items of an escaped space and \<open>fourth value\<close>: \<open>unescape\<close> with \<open>split\<close>
  returns the key and the offset 15 of the value (the 13 bytes of the escaped key and
  the two separator bytes), \<open>unescape\<close> of the rest returns the value, and the table
  loaded from the empty table holds that pair and nothing else.
\<close>

theorem unescape_key_and_separator:
  "(list_all key_item ks \<and> sep \<noteq> [] \<and> list_all is_sep_byte sep
      \<and> rest \<noteq> [] \<and> \<not> is_sep_byte (hd rest)
    \<longrightarrow> unescape (written ks @ sep @ rest) True
        = Inr (read_back ks, length (written ks) + length sep))
   \<and> (list_all key_item ks \<and> ks \<noteq> []
      \<and> hd (written ks) \<noteq> CHR ''#'' \<and> hd (written ks) \<noteq> CHR ''!''
      \<and> sep \<noteq> [] \<and> list_all is_sep_byte sep
      \<and> list_all value_item vs \<and> vs \<noteq> [] \<and> \<not> is_sep_byte (hd (written vs))
      \<and> eol_free (written ks @ sep @ written vs)
    \<longrightarrow> LoadString tbl (written ks @ sep @ written vs)
        = Inr (tbl(read_back ks \<mapsto> read_back vs), 1, None))
   \<and> unescape (''fourth'' @ BS # '' key'' @ BS # '' : '' @ BS # '' fourth value'') True
     = Inr (''fourth key '', 15)
   \<and> unescape (drop 15 (''fourth'' @ BS # '' key'' @ BS # '' : '' @ BS # '' fourth value'')) False
     = Inr ('' fourth value'', 14)
   \<and> LoadString Map.empty (''fourth'' @ BS # '' key'' @ BS # '' : '' @ BS # '' fourth value'')
     = Inr ([''fourth key '' \<mapsto> '' fourth value''], 1, None)"
proof (intro conjI impI)
  assume "list_all key_item ks \<and> sep \<noteq> [] \<and> list_all is_sep_byte sep
      \<and> rest \<noteq> [] \<and> \<not> is_sep_byte (hd rest)"
  then show "unescape (written ks @ sep @ rest) True
        = Inr (read_back ks, length (written ks) + length sep)"
    using unescape_key [of ks sep rest] by blast
next
  assume "list_all key_item ks \<and> ks \<noteq> []
      \<and> hd (written ks) \<noteq> CHR ''#'' \<and> hd (written ks) \<noteq> CHR ''!''
      \<and> sep \<noteq> [] \<and> list_all is_sep_byte sep
      \<and> list_all value_item vs \<and> vs \<noteq> [] \<and> \<not> is_sep_byte (hd (written vs))
      \<and> eol_free (written ks @ sep @ written vs)"
  then show "LoadString tbl (written ks @ sep @ written vs)
        = Inr (tbl(read_back ks \<mapsto> read_back vs), 1, None)"
    using LoadString_key_value_line [of ks sep vs tbl] by blast
next
  let ?line = "''fourth'' @ BS # '' key'' @ BS # '' : '' @ BS # '' fourth value''"
  show key: "unescape ?line True = Inr (''fourth key '', 15)"
    by code_simp
  show val: "unescape (drop 15 ?line) False = Inr ('' fourth value'', 14)"
    by code_simp
  have bytes: "loadBytes EOF ?line = (?line, Some EOF, [])"
    by code_simp
  show "LoadString Map.empty ?line = Inr ([''fourth key '' \<mapsto> '' fourth value''], 1, None)"
    using bytes [simplified] key [simplified] val [simplified]
    by (simp add: LoadString_def Load_def Load_loop.simps load_line_def slice_from_def)
qed

text \<open>
  Two instances of the rule: the line of the claim, and the line made of the key
  \<open>\=\:\=\<close> of the documentation of \<open>Load\<close>, the run of a tab, \<open>=\<close>, a
  form-feed and a space, and the value \<open>v=w\<close>, which loads to the key \<open>=:=\<close> and
  the value \<open>v=w\<close>.
\<close>

theorem unescape_key_and_separator_witness:
  "list_all key_item
     (map Plain ''fourth'' @ Escaped CHR '' '' # map Plain ''key'' @ [Escaped CHR '' ''])
   \<and> list_all is_sep_byte '': ''
   \<and> list_all value_item (Escaped CHR '' '' # map Plain ''fourth value'')
   \<and> written (map Plain ''fourth'' @ Escaped CHR '' '' # map Plain ''key'' @ [Escaped CHR '' ''])
       @ '': '' @ written (Escaped CHR '' '' # map Plain ''fourth value'')
     = ''fourth'' @ BS # '' key'' @ BS # '' : '' @ BS # '' fourth value''
   \<and> unescape (''fourth'' @ BS # '' key'' @ BS # '' : '' @ BS # '' fourth value'') True
     = Inr (''fourth key '', 15)
   \<and> LoadString Map.empty (''fourth'' @ BS # '' key'' @ BS # '' : '' @ BS # '' fourth value'')
     = Inr ([''fourth key '' \<mapsto> '' fourth value''], 1, None)
   \<and> list_all key_item [Escaped CHR ''='', Escaped CHR '':'', Escaped CHR ''='']
   \<and> list_all is_sep_byte [TAB, CHR ''='', FF, CHR '' '']
   \<and> list_all value_item (map Plain ''v=w'')
   \<and> unescape (BS # ''='' @ BS # '':'' @ BS # ''='' @ [TAB, CHR ''='', FF, CHR '' ''] @ ''v=w'') True
     = Inr (''=:='', 10)
   \<and> LoadString Map.empty
       (BS # ''='' @ BS # '':'' @ BS # ''='' @ [TAB, CHR ''='', FF, CHR '' ''] @ ''v=w'')
     = Inr ([''=:='' \<mapsto> ''v=w''], 1, None)"
proof -
  let ?ks = "map Plain ''fourth'' @ Escaped CHR '' '' # map Plain ''key'' @ [Escaped CHR '' '']"
  let ?vs = "Escaped CHR '' '' # map Plain ''fourth value''"
  let ?ks' = "[Escaped CHR ''='', Escaped CHR '':'', Escaped CHR ''='']"
  let ?sep' = "[TAB, CHR ''='', FF, CHR '' '']"
  let ?vs' = "map Plain ''v=w''"
  have k: "list_all key_item ?ks"
    by (simp add: ascii_byte_def is_sep_byte_def literal_escape_def)
  have s: "list_all is_sep_byte '': ''" by (simp add: is_sep_byte_def)
  have v: "list_all value_item ?vs"
    by (simp add: ascii_byte_def literal_escape_def)
  have e: "eol_free (written ?ks @ '': '' @ written ?vs)" by (simp add: eol_free_def)
  have h: "\<not> is_sep_byte (hd (written ?vs))" by (simp add: is_sep_byte_def)
  have w: "written ?ks @ '': '' @ written ?vs
      = ''fourth'' @ BS # '' key'' @ BS # '' : '' @ BS # '' fourth value''"
    by simp
  have k': "list_all key_item ?ks'"
    by (simp add: ascii_byte_def literal_escape_def)
  have s': "list_all is_sep_byte ?sep'" by (simp add: is_sep_byte_def)
  have v': "list_all value_item ?vs'" by (simp add: ascii_byte_def)
  have e': "eol_free (written ?ks' @ ?sep' @ written ?vs')" by (simp add: eol_free_def)
  have h': "\<not> is_sep_byte (hd (written ?vs'))" by (simp add: is_sep_byte_def)
  note t = unescape_key_and_separator [where ks = ?ks and sep = "'': ''" and rest = "written ?vs"
      and vs = ?vs and tbl = Map.empty]
  note t' = unescape_key_and_separator [where ks = ?ks' and sep = ?sep' and rest = "written ?vs'"
      and vs = ?vs' and tbl = Map.empty]
  have a: "unescape (written ?ks @ '': '' @ written ?vs) True = Inr (read_back ?ks, 15)"
    using t k s h by simp
  have b: "LoadString Map.empty (written ?ks @ '': '' @ written ?vs)
      = Inr ([read_back ?ks \<mapsto> read_back ?vs], 1, None)"
    using t k s v h e by simp
  have a': "unescape (written ?ks' @ ?sep' @ written ?vs') True = Inr (read_back ?ks', 10)"
    using t' k' s' h' by simp
  have b': "LoadString Map.empty (written ?ks' @ ?sep' @ written ?vs')
      = Inr ([read_back ?ks' \<mapsto> read_back ?vs'], 1, None)"
    using t' k' s' v' h' e' by simp
  from k s v w a b k' s' v' a' b' show ?thesis by simp
qed

text \<open>
  Claim C8: every rune outside printable ASCII is escaped by \<open>escapeRune\<close> as one
  \<open>\uXXXX\<close>, or as the two surrogate escapes when it is above \<open>U+FFFF\<close>, and
  \<open>unescapeRune\<close> applied to that output returns the original rune with the whole
  output consumed; in particular for the euro sign and for \<open>U+1F600\<close>.

  The encoding is as claimed, and every rune up to \<open>U+FFFF\<close> decodes back (lemma
  \<open>escapeRune_unescapeRune_bmp\<close>), the euro sign among them. \<open>U+1F600\<close> does not:
  \<open>unescapeRune\<close> returns the replacement rune with six of the twelve bytes consumed.
\<close>

theorem escapeRune_above_ffff_not_decoded_back:
  "escapeRune 0x20ac = BS # ''u20ac''
   \<and> unescapeRune (escapeRune 0x20ac) = (0x20ac, 6)
   \<and> escapeRune 0x1F600 = BS # ''ud83d'' @ BS # ''ude00''
   \<and> unescapeRune (escapeRune 0x1F600) = (RuneError, 6)"
  by code_simp

text \<open>
  Claim C9: for every table that has a defaults table, \<open>Set\<close>, \<open>Delete\<close> and \<open>Clear\<close>
  change only the local map of the owning table: the contents of the defaults table and
  of every table further down the defaults chain are unchanged.

  The table is at \<open>p\<close> in a store whose references are all allocated, and \<open>q\<close> is any
  table of its defaults chain (reached in at most \<open>n\<close> steps). The chain is acyclic,
  which the specification makes a precondition, so \<open>p\<close> is not in its own chain; and
  the table at \<open>p\<close> owns its map, that is it does not hold the very map object of the
  table at \<open>q\<close> (every table with a defaults table is created by \<open>NewTableDefaults\<close>
  with a map of its own). Then the contents of \<open>q\<close>, its \<open>defaults\<close> field and the chain
  itself are the same after each of the three operations.
\<close>

theorem Set_Delete_Clear_leave_defaults_chain:
  assumes "valid_store s" and "p < length (tables s)"
    and "q \<in> set (chain s n (defaults (tables s ! p)))"
    and "p \<notin> set (chain s n (defaults (tables s ! p)))"
    and "own_map s p q"
    and "s' = Set p key val s \<or> s' = Delete p key s \<or> s' = Clear p s"
  shows "contents s' q = contents s q
    \<and> defaults (tables s' ! q) = defaults (tables s ! q)
    \<and> chain s' n (defaults (tables s' ! p)) = chain s n (defaults (tables s ! p))"
proof -
  have d: "case defaults (tables s ! p) of None \<Rightarrow> True | Some x \<Rightarrow> x < length (tables s)"
    using assms(1,2) by (rule valid_defaults)
  have q: "q < length (tables s)"
    using chain_valid [OF assms(1) d assms(3)] .
  from assms(3,4) have ne: "q \<noteq> p" by auto
  from assms(6) consider (set) "s' = Set p key val s" | (del) "s' = Delete p key s"
    | (clr) "s' = Clear p s" by blast
  then show ?thesis
  proof cases
    case set
    have "contents s' q = contents s q"
      unfolding set using assms(1,2) q ne assms(5) by (rule frame_Set)
    moreover have "defaults (tables s' ! q) = defaults (tables s ! q)"
      unfolding set using assms(2) q by (rule defaults_Set)
    moreover have "defaults (tables s' ! p) = defaults (tables s ! p)"
      unfolding set using assms(2) assms(2) by (rule defaults_Set)
    moreover have "chain s' n (defaults (tables s ! p)) = chain s n (defaults (tables s ! p))"
      unfolding set using assms(1,2) d by (rule chain_Set)
    ultimately show ?thesis by simp
  next
    case del
    have "contents s' q = contents s q"
      unfolding del using assms(5) by (rule frame_Delete)
    moreover have "chain s' n (defaults (tables s ! p)) = chain s n (defaults (tables s ! p))"
      unfolding del using assms(1) d by (rule chain_Delete)
    ultimately show ?thesis by (simp add: del defaults_Delete)
  next
    case clr
    have "contents s' q = contents s q"
      unfolding clr using assms(1,2) q ne by (rule frame_Clear)
    moreover have "defaults (tables s' ! q) = defaults (tables s ! q)"
      unfolding clr using q by (rule defaults_Clear)
    moreover have "defaults (tables s' ! p) = defaults (tables s ! p)"
      unfolding clr using assms(2) by (rule defaults_Clear)
    moreover have "chain s' n (defaults (tables s ! p)) = chain s n (defaults (tables s ! p))"
      unfolding clr using assms(1) d by (rule chain_Clear)
    ultimately show ?thesis by simp
  qed
qed

theorem Set_Delete_Clear_leave_defaults_chain_witness:
  "contents (Set 1 ''a'' ''3'' two_tables) 0 = [''a'' \<mapsto> ''1'']
   \<and> contents (Delete 1 ''a'' two_tables) 0 = [''a'' \<mapsto> ''1'']
   \<and> contents (Clear 1 two_tables) 0 = [''a'' \<mapsto> ''1'']
   \<and> chain (Set 1 ''a'' ''3'' two_tables) 2 (defaults (tables (Set 1 ''a'' ''3'' two_tables) ! 1)) = [0]
   \<and> contents (Set 1 ''a'' ''3'' two_tables) 1 = [''a'' \<mapsto> ''3'']"
proof -
  let ?s = two_tables
  have v: "valid_store ?s"
    by (simp add: valid_store_def valid_table_def two_tables_def)
  have p: "(1::nat) < length (tables ?s)" by (simp add: two_tables_def)
  have c: "chain ?s 2 (defaults (tables ?s ! 1)) = [0]"
    by (simp add: two_tables_def numeral_2_eq_2)
  have q: "0 \<in> set (chain ?s 2 (defaults (tables ?s ! 1)))" unfolding c by simp
  have a: "1 \<notin> set (chain ?s 2 (defaults (tables ?s ! 1)))" unfolding c by simp
  have o: "own_map ?s 1 0" by (simp add: own_map_def two_tables_def)
  have c0: "contents ?s 0 = [''a'' \<mapsto> ''1'']" by (simp add: contents_def two_tables_def)
  have c1: "contents ?s 1 = [''a'' \<mapsto> ''2'']" by (simp add: contents_def two_tables_def)
  note f = Set_Delete_Clear_leave_defaults_chain [OF v p q a o]
  have "contents (Set 1 ''a'' ''3'' ?s) 0 = contents ?s 0"
    and "chain (Set 1 ''a'' ''3'' ?s) 2 (defaults (tables (Set 1 ''a'' ''3'' ?s) ! 1))
           = chain ?s 2 (defaults (tables ?s ! 1))"
    using f [of "Set 1 ''a'' ''3'' ?s" "''a''" "''3''"] by simp_all
  moreover have "contents (Delete 1 ''a'' ?s) 0 = contents ?s 0"
    using f [of "Delete 1 ''a'' ?s" "''a''" "''3''"] by simp
  moreover have "contents (Clear 1 ?s) 0 = contents ?s 0"
    using f [of "Clear 1 ?s" "''a''" "''3''"] by simp
  moreover have "contents (Set 1 ''a'' ''3'' ?s) 1 = [''a'' \<mapsto> ''3'']"
    using Set_Delete_Clear_local(1) [OF v p, of "''a''" "''3''"] c1 by simp
  ultimately show ?thesis using c0 c by simp
qed

text \<open>
  Claim C10: \<open>Next\<close> and \<open>Option\<close> return identical results over any number of
  successive calls, and \<open>Args()\<close> returns the same remaining arguments at every point.

  This holds up to the first end of options only. As amended: started in the same state
  with \<open>done\<close> false, if the first \<open>k\<close> calls of \<open>Next\<close> neither panic nor return
  \<open>(EndOption, nil)\<close>, then the first \<open>k + 1\<close> calls of \<open>Option\<close> and of \<open>Next\<close> give the same
  results, the same \<open>Args()\<close> after each call, and panic alike; and once \<open>Option\<close> has
  returned \<open>EndOption\<close>, every later call of it returns \<open>(EndOption, nil)\<close> and leaves
  \<open>Args()\<close> as it is.
\<close>

theorem Option_follows_Next_until_end:
  "(same_state dp p \<and> \<not> pdone dp \<and> Next_calls k p = Inr obs
      \<and> (\<forall>ob \<in> set obs. fst ob \<noteq> (EndOption, None))
     \<longrightarrow> Option_calls (Suc k) dp = Next_calls (Suc k) p)
   \<and> (Option dq = Inr ((EndOption, e), dq')
     \<longrightarrow> Option_calls n dq' = Inr (replicate n ((EndOption, None), Args dq')))"
  using Option_calls_sim [of dp p k obs] Option_End_done [of dq e dq']
    Option_calls_done [of dq' n]
  by blast

theorem Option_follows_Next_until_end_witness:
  "Option_calls 3 (NewDParser [''test'', ''-ab'', ''cdef''] ''ab:'')
     = Next_calls 3 (NewParser [''test'', ''-ab'', ''cdef''] ''ab:'')
   \<and> Next_calls 3 (NewParser [''test'', ''-ab'', ''cdef''] ''ab:'')
     = Inr [((0x61, None), Inr [''-ab'', ''cdef'']), ((0x62, None), Inr []),
            ((EndOption, None), Inr [])]
   \<and> Option_calls 2 (NewDParser [''prog'', ''--'', ''-a''] ''a''\<lparr>optIndex := 2, pdone := True\<rparr>)
     = Inr [((EndOption, None), Inr [''-a'']), ((EndOption, None), Inr [''-a''])]"
proof -
  let ?dp = "NewDParser [''test'', ''-ab'', ''cdef''] ''ab:''"
  let ?p = "NewParser [''test'', ''-ab'', ''cdef''] ''ab:''"
  let ?obs = "[((0x61, None), Inr [''-ab'', ''cdef'']), ((0x62, None), Inr [])]
                :: observation list"
  let ?dq = "NewDParser [''prog'', ''--'', ''-a''] ''a''"
  let ?dq' = "?dq\<lparr>optIndex := 2, pdone := True\<rparr>"
  have h1: "same_state ?dp ?p" by (simp add: same_state_def NewDParser_def NewParser_def)
  have h2: "\<not> pdone ?dp" by (simp add: NewDParser_def)
  have h3: "Next_calls 2 ?p = Inr ?obs" by code_simp
  have h4: "\<forall>ob \<in> set ?obs. fst ob \<noteq> (EndOption, None)" by simp
  have h5: "Option ?dq = Inr ((EndOption, None), ?dq')" by code_simp
  have n3: "Next_calls 3 ?p = Inr [((0x61, None), Inr [''-ab'', ''cdef'']), ((0x62, None), Inr []),
            ((EndOption, None), Inr [])]" by code_simp
  have a: "Args ?dq' = Inr [''-a'']" by code_simp
  from Option_follows_Next_until_end [of ?dp ?p 2 ?obs ?dq None ?dq' 2] h1 h2 h3 h4 h5
  have "Option_calls 3 ?dp = Next_calls 3 ?p"
    and "Option_calls 2 ?dq' = Inr (replicate 2 ((EndOption, None), Args ?dq'))"
    by (simp_all add: numeral_3_eq_3)
  with n3 a show ?thesis by (simp add: numeral_2_eq_2)
qed

text \<open>
  The counterexample to claim C10 as stated: with the arguments \<open>prog -- -a\<close> and the
  options \<open>a\<close>, the first call of both returns \<open>EndOption\<close>; the second call of \<open>Next\<close>
  parses \<open>-a\<close> and returns the option \<open>a\<close>, after which \<open>Args()\<close> is empty, while the
  second call of \<open>Option\<close> returns \<open>EndOption\<close> again and \<open>Args()\<close> is still \<open>-a\<close>.
\<close>

theorem Next_restarts_after_end:
  "Next_calls 2 (NewParser [''prog'', ''--'', ''-a''] ''a'')
     = Inr [((EndOption, None), Inr [''-a'']), ((0x61, None), Inr [])]
   \<and> Option_calls 2 (NewDParser [''prog'', ''--'', ''-a''] ''a'')
     = Inr [((EndOption, None), Inr [''-a'']), ((EndOption, None), Inr [''-a''])]"
  by code_simp

end
